theory Spec2Isabelle
  imports Main "HOL-Library.Word" "HOL-Library.Signed_Division"
begin

unbundle bit_operations_syntax

section \<open>Machine types and the constants of the RISC-V Sv39 page table\<close>

text \<open>
  The kernel is compiled for 64-bit RISC-V: \<open>uint64\<close> and pointers are 64-bit words,
  \<open>int\<close> and \<open>uint\<close> are 32-bit words (signed comparisons are written \<open><s\<close>), a byte
  is an 8-bit word. Physical memory is one byte-addressed store; a page-table entry is the
  little-endian 64-bit word at its address.
\<close>

type_synonym uint64 = "64 word"
type_synonym int32 = "32 word"
type_synonym byte = "8 word"
type_synonym memory = "uint64 \<Rightarrow> byte"

text \<open>
  Modelled from the spec: the macros of \<open>riscv.h\<close>, which is not among the sources.
  The values are those fixed by the hardware format the spec names (three levels, 512
  entries per table, 4096-byte pages) and by the comment above \<open>walk\<close> in \<open>vm.c\<close>
  (nine index bits per level above a twelve-bit page offset, bits 39..63 zero). A
  page-table entry holds the valid bit in bit 0, the read, write, execute and user bits in
  bits 1..4, ten flag bits in all, and the physical page number from bit 10 upwards.
\<close>

definition PGSIZE :: uint64 where
  "PGSIZE = 4096"

definition PGROUNDUP :: "uint64 \<Rightarrow> uint64" where
  "PGROUNDUP sz = (sz + PGSIZE - 1) AND NOT (PGSIZE - 1)"

definition PGROUNDDOWN :: "uint64 \<Rightarrow> uint64" where
  "PGROUNDDOWN a = a AND NOT (PGSIZE - 1)"

definition PTE_V :: uint64 where "PTE_V = 1"
definition PTE_R :: uint64 where "PTE_R = 2"
definition PTE_W :: uint64 where "PTE_W = 4"
definition PTE_X :: uint64 where "PTE_X = 8"
definition PTE_U :: uint64 where "PTE_U = 16"

definition PA2PTE :: "uint64 \<Rightarrow> uint64" where
  "PA2PTE pa = push_bit 10 (drop_bit 12 pa)"

definition PTE2PA :: "uint64 \<Rightarrow> uint64" where
  "PTE2PA pte = push_bit 12 (drop_bit 10 pte)"

definition PTE_FLAGS :: "uint64 \<Rightarrow> uint64" where
  "PTE_FLAGS pte = pte AND 0x3FF"

definition PX :: "nat \<Rightarrow> uint64 \<Rightarrow> uint64" where
  "PX level va = drop_bit (12 + 9 * level) va AND 0x1FF"

definition MAXVA :: uint64 where
  "MAXVA = push_bit (9 + 9 + 9 + 12 - 1) 1"

subsection \<open>Physical memory\<close>

definition load64 :: "memory \<Rightarrow> uint64 \<Rightarrow> uint64" where
  "load64 m a =
     ucast (m a) OR push_bit 8 (ucast (m (a + 1))) OR push_bit 16 (ucast (m (a + 2)))
     OR push_bit 24 (ucast (m (a + 3))) OR push_bit 32 (ucast (m (a + 4)))
     OR push_bit 40 (ucast (m (a + 5))) OR push_bit 48 (ucast (m (a + 6)))
     OR push_bit 56 (ucast (m (a + 7)))"

definition store64 :: "memory \<Rightarrow> uint64 \<Rightarrow> uint64 \<Rightarrow> memory" where
  "store64 m a v =
     (\<lambda>x. if x - a < 8 then ucast (drop_bit (8 * unat (x - a)) v) else m x)"

text \<open>\<open>memset(dst, c, n)\<close> and \<open>memmove(dst, src, n)\<close> on the store.\<close>

definition memset :: "memory \<Rightarrow> uint64 \<Rightarrow> byte \<Rightarrow> uint64 \<Rightarrow> memory" where
  "memset m dst c n = (\<lambda>x. if x - dst < n then c else m x)"

definition memmove :: "memory \<Rightarrow> uint64 \<Rightarrow> uint64 \<Rightarrow> uint64 \<Rightarrow> memory" where
  "memmove m dst src n = (\<lambda>x. if x - dst < n then m (src + (x - dst)) else m x)"

text \<open>Copying between the store and a kernel buffer, which is kept as a list of bytes.\<close>

definition write_bytes :: "memory \<Rightarrow> uint64 \<Rightarrow> byte list \<Rightarrow> memory" where
  "write_bytes m dst bs =
     (\<lambda>x. if unat (x - dst) < length bs then bs ! unat (x - dst) else m x)"

definition read_bytes :: "memory \<Rightarrow> uint64 \<Rightarrow> nat \<Rightarrow> byte list" where
  "read_bytes m src n = map (\<lambda>i. m (src + of_nat i)) [0..<n]"

subsection \<open>Kernel state and the page allocator\<close>

record kstate =
  physmem :: memory
  freelist :: "uint64 list"

datatype panic = Panic string

text \<open>
  Modelled from the spec: the physical page allocator (\<open>kalloc\<close>, \<open>kfree\<close>), whose file is
  not among the sources. It hands out a zeroed page-sized frame, or none (the null
  pointer) when it is exhausted, and takes a released frame back. The free frames are a
  list; allocation takes the head.
\<close>

definition kalloc :: "kstate \<Rightarrow> uint64 \<times> kstate" where
  "kalloc s =
     (case freelist s of
        [] \<Rightarrow> (0, s)
      | p # ps \<Rightarrow> (p, s\<lparr>physmem := memset (physmem s) p 0 PGSIZE, freelist := ps\<rparr>))"

definition kfree :: "kstate \<Rightarrow> uint64 \<Rightarrow> kstate" where
  "kfree s pa = s\<lparr>freelist := pa # freelist s\<rparr>"

section \<open>The page table\<close>

text \<open>
  \<open>walk\<close>: the loop over levels 2 and 1 is \<open>walk_level\<close>, counting the level down; the
  result is the address of the level-0 entry, or 0 (the null pointer). \<open>alloc\<close> is the
  truth value of the C argument.
\<close>

fun walk_level :: "kstate \<Rightarrow> uint64 \<Rightarrow> uint64 \<Rightarrow> bool \<Rightarrow> nat \<Rightarrow> uint64 \<times> kstate" where
  "walk_level s pagetable va alloc 0 = (pagetable + 8 * PX 0 va, s)"
| "walk_level s pagetable va alloc (Suc l) =
     (let pte = pagetable + 8 * PX (Suc l) va in
      if load64 (physmem s) pte AND PTE_V \<noteq> 0
      then walk_level s (PTE2PA (load64 (physmem s) pte)) va alloc l
      else if \<not> alloc then (0, s)
      else (case kalloc s of (p, s1) \<Rightarrow>
              if p = 0 then (0, s1)
              else let s2 = s1\<lparr>physmem := memset (physmem s1) p 0 PGSIZE\<rparr>;
                       s3 = s2\<lparr>physmem := store64 (physmem s2) pte (PA2PTE p OR PTE_V)\<rparr>
                   in walk_level s3 p va alloc l))"

definition walk :: "kstate \<Rightarrow> uint64 \<Rightarrow> uint64 \<Rightarrow> bool \<Rightarrow> panic + uint64 \<times> kstate" where
  "walk s pagetable va alloc =
     (if MAXVA \<le> va then Inl (Panic ''walk'') else Inr (walk_level s pagetable va alloc 2))"


text \<open>
  \<open>walkaddr\<close>. Its call of \<open>walk\<close> cannot panic, since \<open>va < MAXVA\<close> has been checked;
  the branch for a panic is there only because \<open>walk\<close> has one.
\<close>

definition walkaddr :: "kstate \<Rightarrow> uint64 \<Rightarrow> uint64 \<Rightarrow> uint64" where
  "walkaddr s pagetable va =
     (if MAXVA \<le> va then 0
      else (case walk s pagetable va False of
              Inl e \<Rightarrow> 0
            | Inr (pte, s1) \<Rightarrow>
                if pte = 0 then 0
                else if load64 (physmem s1) pte AND PTE_V = 0 then 0
                else if load64 (physmem s1) pte AND PTE_U = 0 then 0
                else PTE2PA (load64 (physmem s1) pte)))"

text \<open>
  \<open>mappages\<close>: the \<open>for(;;)\<close> loop is \<open>mappages_loop\<close>. \<open>perm\<close> is a C \<open>int\<close>, widened
  with its sign when it is or-ed into the 64-bit entry. The result is the returned
  \<open>int\<close> (0 or -1) and the state, or a panic.
\<close>

function mappages_loop ::
  "kstate \<Rightarrow> uint64 \<Rightarrow> uint64 \<Rightarrow> uint64 \<Rightarrow> uint64 \<Rightarrow> int32 \<Rightarrow> panic + int32 \<times> kstate" where
  "mappages_loop s pagetable a last_a pa perm =
     (case walk s pagetable a True of
        Inl e \<Rightarrow> Inl e
      | Inr (pte, s1) \<Rightarrow>
          if pte = 0 then Inr (- 1, s1)
          else if load64 (physmem s1) pte AND PTE_V \<noteq> 0 then Inl (Panic ''remap'')
          else let s2 = s1\<lparr>physmem :=
                          store64 (physmem s1) pte (PA2PTE pa OR scast perm OR PTE_V)\<rparr>
               in if a = last_a then Inr (0, s2)
                  else mappages_loop s2 pagetable (a + PGSIZE) last_a (pa + PGSIZE) perm)"
  by pat_completeness auto
termination
proof (relation "measure (\<lambda>(s, pagetable, a, last_a, pa, perm). unat MAXVA - unat a)")
  show "wf (measure (\<lambda>(s, pagetable, a, last_a, pa, perm). unat MAXVA - unat a))"
    by simp
next
  fix s :: kstate and pagetable a last_a pa :: uint64 and perm :: int32 and x2 x y s2
  assume "walk s pagetable a True = Inr x2"
  then have "a < MAXVA"
    by (simp add: walk_def split: if_splits)
  then have "unat a < 2 ^ 38" and "unat MAXVA = 2 ^ 38"
    by (simp_all add: MAXVA_def word_less_nat_alt)
  moreover from this have "unat (a + PGSIZE) = unat a + 4096"
    by (simp add: PGSIZE_def unat_word_ariths)
  ultimately show "((s2, pagetable, a + PGSIZE, last_a, pa + PGSIZE, perm),
                    (s, pagetable, a, last_a, pa, perm))
        \<in> measure (\<lambda>(s, pagetable, a, last_a, pa, perm). unat MAXVA - unat a)"
    by simp
qed

definition mappages ::
  "kstate \<Rightarrow> uint64 \<Rightarrow> uint64 \<Rightarrow> uint64 \<Rightarrow> uint64 \<Rightarrow> int32 \<Rightarrow> panic + int32 \<times> kstate" where
  "mappages s pagetable va sz pa perm =
     mappages_loop s pagetable (PGROUNDDOWN va) (PGROUNDDOWN (va + sz - 1)) pa perm"

text \<open>
  \<open>uvmunmap\<close>: the loop runs \<open>a\<close> from \<open>va\<close> while \<open>a < va + npages * PGSIZE\<close>, the bound
  being \<open>bound\<close> below; \<open>continue\<close> goes on with \<open>a + PGSIZE\<close>.
\<close>

function uvmunmap_loop ::
  "kstate \<Rightarrow> uint64 \<Rightarrow> uint64 \<Rightarrow> uint64 \<Rightarrow> bool \<Rightarrow> panic + kstate" where
  "uvmunmap_loop s pagetable a bound do_free =
     (if a < bound then
        (case walk s pagetable a False of
           Inl e \<Rightarrow> Inl e
         | Inr (pte, s1) \<Rightarrow>
             if pte = 0 then Inl (Panic ''uvmunmap: walk'')
             else if load64 (physmem s1) pte AND PTE_V = 0
             then uvmunmap_loop s1 pagetable (a + PGSIZE) bound do_free
             else if PTE_FLAGS (load64 (physmem s1) pte) = PTE_V
             then Inl (Panic ''uvmunmap: not a leaf'')
             else let s2 = (if do_free
                            then (let pa = PTE2PA (load64 (physmem s1) pte)
                                  in if pa \<noteq> 0 then kfree s1 pa else s1)
                            else s1);
                      s3 = s2\<lparr>physmem := store64 (physmem s2) pte 0\<rparr>
                  in uvmunmap_loop s3 pagetable (a + PGSIZE) bound do_free)
      else Inr s)"
  by pat_completeness auto
termination
proof (relation "measure (\<lambda>(s, pagetable, a, bound, do_free). unat bound - unat a)")
  show "wf (measure (\<lambda>(s, pagetable, a, bound, do_free). unat bound - unat a))"
    by simp
next
  fix s :: kstate and pagetable a bound :: uint64 and do_free :: bool and x2 x y
  assume lt: "a < bound" and "walk s pagetable a False = Inr x2"
  then have "a < MAXVA"
    by (simp add: walk_def split: if_splits)
  then have "unat a < 2 ^ 38"
    by (simp add: MAXVA_def word_less_nat_alt)
  then have "unat (a + PGSIZE) = unat a + 4096"
    by (simp add: PGSIZE_def unat_word_ariths)
  with lt show "((y, pagetable, a + PGSIZE, bound, do_free), (s, pagetable, a, bound, do_free))
        \<in> measure (\<lambda>(s, pagetable, a, bound, do_free). unat bound - unat a)"
    by (simp add: word_less_nat_alt)
next
  fix s :: kstate and pagetable a bound :: uint64 and do_free :: bool and x2 x y xa xb
  assume lt: "a < bound" and "walk s pagetable a False = Inr x2"
  then have "a < MAXVA"
    by (simp add: walk_def split: if_splits)
  then have "unat a < 2 ^ 38"
    by (simp add: MAXVA_def word_less_nat_alt)
  then have "unat (a + PGSIZE) = unat a + 4096"
    by (simp add: PGSIZE_def unat_word_ariths)
  with lt show "((xb, pagetable, a + PGSIZE, bound, do_free), (s, pagetable, a, bound, do_free))
        \<in> measure (\<lambda>(s, pagetable, a, bound, do_free). unat bound - unat a)"
    by (simp add: word_less_nat_alt)
qed

definition uvmunmap :: "kstate \<Rightarrow> uint64 \<Rightarrow> uint64 \<Rightarrow> uint64 \<Rightarrow> bool \<Rightarrow> panic + kstate" where
  "uvmunmap s pagetable va npages do_free =
     (if va mod PGSIZE \<noteq> 0 then Inl (Panic ''uvmunmap: not aligned'')
      else uvmunmap_loop s pagetable va (va + npages * PGSIZE) do_free)"


subsection \<open>Facts about addresses needed by the termination proofs\<close>

lemma PGSIZE_mask: "PGSIZE - 1 = mask 12"
  by (simp add: PGSIZE_def mask_eq_exp_minus_1)

lemma bit_PGROUNDDOWN: "bit (PGROUNDDOWN a) n \<longleftrightarrow> 12 \<le> n \<and> bit a n"
  by (auto simp: PGROUNDDOWN_def PGSIZE_mask bit_simps dest: bit_imp_le_length)

lemma word64_less_2p_bits:
  "k < 64 \<Longrightarrow> (w::uint64) < 2 ^ k \<longleftrightarrow> (\<forall>n. bit w n \<longrightarrow> n < k)"
proof -
  assume k: "k < 64"
  have "(w < 2 ^ k) = (w AND mask k = w)"
    using k by (simp add: mask_eq_iff_w2p word_size)
  also have "\<dots> = (\<forall>n. bit w n \<longrightarrow> n < k)"
  proof
    assume e: "w AND mask k = w"
    show "\<forall>n. bit w n \<longrightarrow> n < k"
    proof (intro allI impI)
      fix n assume "bit w n"
      then have "bit (w AND mask k) n" using e by simp
      then show "n < k" by (simp add: bit_simps)
    qed
  next
    assume "\<forall>n. bit w n \<longrightarrow> n < k"
    then show "w AND mask k = w"
      by (auto simp: bit_eq_iff bit_simps)
  qed
  finally show ?thesis .
qed

lemma MAXVA_2p: "MAXVA = 2 ^ 38"
  by (simp add: MAXVA_def)

lemma PGROUNDDOWN_less_MAXVA: "PGROUNDDOWN a < MAXVA \<Longrightarrow> a < MAXVA"
proof -
  assume "PGROUNDDOWN a < MAXVA"
  then have h: "\<forall>n. 12 \<le> n \<and> bit a n \<longrightarrow> n < 38"
    using word64_less_2p_bits[of 38 "PGROUNDDOWN a"] by (simp add: MAXVA_2p bit_PGROUNDDOWN)
  have "\<forall>n. bit a n \<longrightarrow> n < 38"
  proof (intro allI impI)
    fix n assume "bit a n"
    with h show "n < 38" by (cases "12 \<le> n") auto
  qed
  then show ?thesis
    using word64_less_2p_bits[of 38 a] by (simp add: MAXVA_2p)
qed

lemma mappages_Inr_MAXVA: "mappages s pagetable va sz pa perm = Inr x \<Longrightarrow> va < MAXVA"
proof -
  assume "mappages s pagetable va sz pa perm = Inr x"
  then have "walk s pagetable (PGROUNDDOWN va) True \<noteq> Inl (Panic ''walk'')"
    unfolding mappages_def by (subst (asm) mappages_loop.simps) auto
  then have "PGROUNDDOWN va < MAXVA"
    by (simp add: walk_def split: if_splits)
  then show ?thesis by (rule PGROUNDDOWN_less_MAXVA)
qed

lemma unat_add_PGSIZE: "a < MAXVA \<Longrightarrow> unat (a + PGSIZE) = unat a + 4096"
proof -
  assume "a < MAXVA"
  then have "unat a < 2 ^ 38"
    by (simp add: MAXVA_def word_less_nat_alt)
  then show ?thesis
    by (simp add: PGSIZE_def unat_word_ariths)
qed

lemma loop_measure:
  "i < sz \<Longrightarrow> i < MAXVA \<Longrightarrow> unat sz - unat (i + PGSIZE) < unat sz - unat i"
  by (simp add: unat_add_PGSIZE word_less_nat_alt)

section \<open>Address-space lifecycle\<close>

text \<open>
  \<open>uvmdealloc\<close>: \<open>npages\<close> is a C \<open>int\<close>, so the page count is cut to 32 bits and widened
  with its sign when it is passed on as a \<open>uint64\<close>.
\<close>

definition uvmdealloc :: "kstate \<Rightarrow> uint64 \<Rightarrow> uint64 \<Rightarrow> uint64 \<Rightarrow> panic + uint64 \<times> kstate" where
  "uvmdealloc s pagetable oldsz newsz =
     (if oldsz \<le> newsz then Inr (oldsz, s)
      else if PGROUNDUP newsz < PGROUNDUP oldsz
      then (let npages = (ucast ((PGROUNDUP oldsz - PGROUNDUP newsz) div PGSIZE) :: int32)
            in case uvmunmap s pagetable (PGROUNDUP newsz) (scast npages) True of
                 Inl e \<Rightarrow> Inl e
               | Inr s1 \<Rightarrow> Inr (newsz, s1))
      else Inr (newsz, s))"

text \<open>
  \<open>uvmalloc\<close>: the loop is \<open>uvmalloc_loop\<close>; \<open>oldsz\<close> there is the rounded value the loop
  was entered with.
\<close>

function uvmalloc_loop ::
  "kstate \<Rightarrow> uint64 \<Rightarrow> uint64 \<Rightarrow> uint64 \<Rightarrow> uint64 \<Rightarrow> panic + uint64 \<times> kstate" where
  "uvmalloc_loop s pagetable a oldsz newsz =
     (if a < newsz then
        (case kalloc s of (mem, s1) \<Rightarrow>
           (if mem = 0
            then (case uvmdealloc s1 pagetable a oldsz of
                    Inl e \<Rightarrow> Inl e
                  | Inr (r, s2) \<Rightarrow> Inr (0, s2))
            else (let s2 = s1\<lparr>physmem := memset (physmem s1) mem 0 PGSIZE\<rparr>
                  in (case mappages s2 pagetable a PGSIZE mem
                             (ucast (PTE_W OR PTE_X OR PTE_R OR PTE_U)) of
                        Inl e \<Rightarrow> Inl e
                      | Inr (r, s3) \<Rightarrow>
                          (if r \<noteq> 0
                           then (case uvmdealloc (kfree s3 mem) pagetable a oldsz of
                                   Inl e \<Rightarrow> Inl e
                                 | Inr (r', s4) \<Rightarrow> Inr (0, s4))
                           else uvmalloc_loop s3 pagetable (a + PGSIZE) oldsz newsz)))))
      else Inr (newsz, s))"
  by pat_completeness auto
termination
  apply (relation "measure (\<lambda>(s, pagetable, a, oldsz, newsz). unat newsz - unat a)")
   apply simp
  apply (auto simp: word_less_nat_alt dest!: mappages_Inr_MAXVA unat_add_PGSIZE)
  done

definition uvmalloc :: "kstate \<Rightarrow> uint64 \<Rightarrow> uint64 \<Rightarrow> uint64 \<Rightarrow> panic + uint64 \<times> kstate" where
  "uvmalloc s pagetable oldsz newsz =
     (if newsz < oldsz then Inr (oldsz, s)
      else uvmalloc_loop s pagetable (PGROUNDUP oldsz) (PGROUNDUP oldsz) newsz)"


text \<open>
  The constants and macros that \<open>vm.c\<close> takes from headers that are not among the
  sources, and whose values neither the code nor the spec fixes, are parameters of the
  model: the software bit \<open>PTE_M\<close> that tags a page-table entry as belonging to a mapped
  file region, the macro \<open>PROT2FLAG\<close> from protection flags to entry bits, the flags
  \<open>MAP_SHARED\<close> and \<open>PROT_WRITE\<close>, and \<open>MAXOPBLOCKS\<close> and \<open>BSIZE\<close> of the file system.
\<close>

record config =
  PTE_M :: uint64
  PROT2FLAG :: "int32 \<Rightarrow> uint64"
  MAP_SHARED :: int32
  PROT_WRITE :: int32
  MAXOPBLOCKS :: int32
  BSIZE :: int32

text \<open>
  \<open>uvmcopy\<close>: the loop is \<open>uvmcopy_loop\<close>, the code after the label \<open>err\<close> is
  \<open>uvmcopy_err\<close>. \<open>flags\<close> is a C \<open>uint\<close>.
\<close>

definition uvmcopy_err :: "kstate \<Rightarrow> uint64 \<Rightarrow> uint64 \<Rightarrow> panic + int32 \<times> kstate" where
  "uvmcopy_err s new i =
     (case uvmunmap s new 0 (i div PGSIZE) True of
        Inl e \<Rightarrow> Inl e
      | Inr s1 \<Rightarrow> Inr (- 1, s1))"

function uvmcopy_loop ::
  "config \<Rightarrow> kstate \<Rightarrow> uint64 \<Rightarrow> uint64 \<Rightarrow> uint64 \<Rightarrow> uint64 \<Rightarrow> panic + int32 \<times> kstate" where
  "uvmcopy_loop cfg s old new i sz =
     (if i < sz then
        (case walk s old i False of
           Inl e \<Rightarrow> Inl e
         | Inr (pte, s1) \<Rightarrow>
             (if pte = 0 then Inl (Panic ''uvmcopy: pte should exist'')
              else if load64 (physmem s1) pte AND PTE_V = 0
              then uvmcopy_loop cfg s1 old new (i + PGSIZE) sz
              else (let pa = PTE2PA (load64 (physmem s1) pte);
                        flags = (ucast (PTE_FLAGS (load64 (physmem s1) pte)) :: int32)
                    in if ucast flags AND PTE_M cfg \<noteq> 0
                       then uvmcopy_loop cfg s1 old new (i + PGSIZE) sz
                       else (case kalloc s1 of (mem, s2) \<Rightarrow>
                               (if mem = 0 then uvmcopy_err s2 new i
                                else (let s3 = s2\<lparr>physmem :=
                                                  memmove (physmem s2) mem pa PGSIZE\<rparr>
                                      in (case mappages s3 new i PGSIZE mem flags of
                                            Inl e \<Rightarrow> Inl e
                                          | Inr (r, s4) \<Rightarrow>
                                              (if r \<noteq> 0
                                               then uvmcopy_err (kfree s4 mem) new i
                                               else uvmcopy_loop cfg s4 old new
                                                      (i + PGSIZE) sz))))))))
      else Inr (0, s))"
  by pat_completeness auto
termination
  apply (relation "measure (\<lambda>(cfg, s, old, new, i, sz). unat sz - unat i)")
   apply simp
  apply (auto simp: walk_def not_le split: if_splits intro!: loop_measure)
  done

definition uvmcopy :: "config \<Rightarrow> kstate \<Rightarrow> uint64 \<Rightarrow> uint64 \<Rightarrow> uint64 \<Rightarrow> panic + int32 \<times> kstate" where
  "uvmcopy cfg s old new sz = uvmcopy_loop cfg s old new 0 sz"

section \<open>Copying between user and kernel\<close>

lemma page_offset_less: "a - PGROUNDDOWN a < PGSIZE"
proof -
  have "a - PGROUNDDOWN a = a AND mask 12"
  proof -
    have "a - PGROUNDDOWN a = a AND NOT (PGROUNDDOWN a)"
      by (rule disjunctive_diff) (simp add: bit_PGROUNDDOWN)
    also have "\<dots> = a AND mask 12"
      by (rule bit_word_eqI) (auto simp: bit_PGROUNDDOWN bit_simps)
    finally show ?thesis .
  qed
  then show ?thesis
    using and_mask_less' [of 12 a] by (simp add: PGSIZE_def)
qed


lemma page_rest_pos: "0 < PGSIZE - (a - PGROUNDDOWN a)"
proof -
  have "a - PGROUNDDOWN a \<noteq> PGSIZE"
    using page_offset_less [of a] by auto
  then have "PGSIZE - (a - PGROUNDDOWN a) \<noteq> 0"
    by simp
  then show ?thesis
    using word_neq_0_conv by blast
qed

text \<open>
  The kernel-side buffer of a copy (\<open>src\<close> of \<open>copyout\<close>, \<open>dst\<close> of \<open>copyin\<close> and
  \<open>copyinstr\<close>) is a list of bytes: \<open>copyout\<close> consumes its list from the front, the other
  two return the bytes they have stored through \<open>dst\<close>, in order. The result is the
  returned \<open>int\<close> with the state or the bytes.
\<close>

function copyout :: "kstate \<Rightarrow> uint64 \<Rightarrow> uint64 \<Rightarrow> byte list \<Rightarrow> uint64 \<Rightarrow> int32 \<times> kstate" where
  "copyout s pagetable dstva src len =
     (if 0 < len then
        (let va0 = PGROUNDDOWN dstva;
             pa0 = walkaddr s pagetable va0
         in if pa0 = 0 then (- 1, s)
            else let n = PGSIZE - (dstva - va0);
                     n = (if len < n then len else n);
                     s1 = s\<lparr>physmem := write_bytes (physmem s) (pa0 + (dstva - va0))
                                            (take (unat n) src)\<rparr>
                 in copyout s1 pagetable (va0 + PGSIZE) (drop (unat n) src) (len - n))
      else (0, s))"
  by pat_completeness auto
termination
proof (relation "measure (\<lambda>(s, pagetable, dstva, src, len). unat len)")
  show "wf (measure (\<lambda>(s, pagetable, dstva, src, len). unat len))"
    by simp
next
  fix s :: kstate and pagetable dstva len x xa xb xc :: uint64 and src :: "byte list" and xd
  assume len: "0 < len" and xb: "xb = PGSIZE - (dstva - x)" and x: "x = PGROUNDDOWN dstva"
    and xc: "xc = (if len < xb then len else xb)"
  have "0 < xb"
    unfolding xb x by (rule page_rest_pos)
  with len have "0 < xc" and "xc \<le> len"
    unfolding xc by auto
  then show "((xd, pagetable, x + PGSIZE, drop (unat xc) src, len - xc),
              (s, pagetable, dstva, src, len))
        \<in> measure (\<lambda>(s, pagetable, dstva, src, len). unat len)"
    by (simp add: word_less_nat_alt word_le_nat_alt unat_sub)
qed

function copyin :: "kstate \<Rightarrow> uint64 \<Rightarrow> byte list \<Rightarrow> uint64 \<Rightarrow> uint64 \<Rightarrow> int32 \<times> byte list" where
  "copyin s pagetable dst srcva len =
     (if 0 < len then
        (let va0 = PGROUNDDOWN srcva;
             pa0 = walkaddr s pagetable va0
         in if pa0 = 0 then (- 1, dst)
            else let n = PGSIZE - (srcva - va0);
                     n = (if len < n then len else n)
                 in copyin s pagetable (dst @ read_bytes (physmem s) (pa0 + (srcva - va0)) (unat n))
                      (va0 + PGSIZE) (len - n))
      else (0, dst))"
  by pat_completeness auto
termination
proof (relation "measure (\<lambda>(s, pagetable, dst, srcva, len). unat len)")
  show "wf (measure (\<lambda>(s, pagetable, dst, srcva, len). unat len))"
    by simp
next
  fix s :: kstate and pagetable srcva len x xa xb xc :: uint64 and dst :: "byte list"
  assume len: "0 < len" and xb: "xb = PGSIZE - (srcva - x)" and x: "x = PGROUNDDOWN srcva"
    and xc: "xc = (if len < xb then len else xb)" and xa: "xa = walkaddr s pagetable x"
  have "0 < xb"
    unfolding xb x by (rule page_rest_pos)
  with len have "0 < xc" and "xc \<le> len"
    unfolding xc by auto
  then show "((s, pagetable, dst @ read_bytes (physmem s) (xa + (srcva - x)) (unat xc),
               x + PGSIZE, len - xc),
              (s, pagetable, dst, srcva, len))
        \<in> measure (\<lambda>(s, pagetable, dst, srcva, len). unat len)"
    by (simp add: word_less_nat_alt word_le_nat_alt unat_sub)
qed

text \<open>
  \<open>copyinstr\<close>: the inner \<open>while(n > 0)\<close> loop is \<open>copyinstr_bytes\<close>, which returns
  \<open>got_null\<close>, what is left of \<open>max\<close> (written \<open>mx\<close>), and the bytes stored through \<open>dst\<close>; the outer loop is
  \<open>copyinstr_loop\<close>, entered with \<open>got_null = 0\<close>.
\<close>

function copyinstr_bytes ::
  "memory \<Rightarrow> uint64 \<Rightarrow> uint64 \<Rightarrow> uint64 \<Rightarrow> byte list \<Rightarrow> bool \<times> uint64 \<times> byte list" where
  "copyinstr_bytes m p n mx dst =
     (if 0 < n then
        (if m p = 0 then (True, mx, dst @ [0])
         else copyinstr_bytes m (p + 1) (n - 1) (mx - 1) (dst @ [m p]))
      else (False, mx, dst))"
  by pat_completeness auto
termination
  apply (relation "measure (\<lambda>(m, p, n, mx, dst). unat n)")
   apply simp
  apply (simp add: word_less_nat_alt unat_sub word_le_nat_alt)
  done


lemma copyinstr_bytes_no_null:
  "copyinstr_bytes m p n mx dst = (False, mx', dst') \<Longrightarrow> mx' = mx - n"
proof (induction m p n mx dst rule: copyinstr_bytes.induct)
  case (1 m p n mx dst)
  show ?case
  proof (cases "0 < n")
    case True
    with "1.prems" have np: "m p \<noteq> 0"
      by (subst (asm) copyinstr_bytes.simps) (auto split: if_splits)
    with True "1.prems" have "copyinstr_bytes m (p + 1) (n - 1) (mx - 1) (dst @ [m p]) = (False, mx', dst')"
      by (subst (asm) copyinstr_bytes.simps) simp
    with "1.IH" True np have "mx' = mx - 1 - (n - 1)"
      by simp
    then show ?thesis by simp
  next
    case False
    then have "n = 0"
      using word_neq_0_conv by blast
    with "1.prems" show ?thesis
      by (subst (asm) copyinstr_bytes.simps) simp
  qed
qed

lemma copyinstr_measure:
  assumes "0 < mx"
    and "(False, mx', dst') =
         copyinstr_bytes m p (if mx < PGSIZE - (srcva - PGROUNDDOWN srcva) then mx
                              else PGSIZE - (srcva - PGROUNDDOWN srcva)) mx dst"
  shows "unat mx' < unat mx"
proof -
  define n where "n = (if mx < PGSIZE - (srcva - PGROUNDDOWN srcva) then mx
                       else PGSIZE - (srcva - PGROUNDDOWN srcva))"
  have "0 < n" and "n \<le> mx"
    using assms(1) page_rest_pos [of srcva] by (auto simp: n_def)
  moreover have "mx' = mx - n"
    using assms(2) copyinstr_bytes_no_null [of m p n mx dst mx' dst'] by (simp add: n_def)
  ultimately show ?thesis
    by (simp add: word_less_nat_alt word_le_nat_alt unat_sub)
qed

function copyinstr_loop ::
  "kstate \<Rightarrow> uint64 \<Rightarrow> byte list \<Rightarrow> uint64 \<Rightarrow> uint64 \<Rightarrow> int32 \<times> byte list" where
  "copyinstr_loop s pagetable dst srcva mx =
     (if 0 < mx then
        (let va0 = PGROUNDDOWN srcva;
             pa0 = walkaddr s pagetable va0
         in if pa0 = 0 then (- 1, dst)
            else let n = PGSIZE - (srcva - va0);
                     n = (if mx < n then mx else n)
                 in case copyinstr_bytes (physmem s) (pa0 + (srcva - va0)) n mx dst of
                      (got_null, mx', dst') \<Rightarrow>
                        if got_null then (0, dst')
                        else copyinstr_loop s pagetable dst' (va0 + PGSIZE) mx')
      else (- 1, dst))"
  by pat_completeness auto
termination
  apply (relation "measure (\<lambda>(s, pagetable, dst, srcva, mx). unat mx)")
   apply simp
  apply (auto dest!: copyinstr_measure)
  done

definition copyinstr :: "kstate \<Rightarrow> uint64 \<Rightarrow> uint64 \<Rightarrow> uint64 \<Rightarrow> int32 \<times> byte list" where
  "copyinstr s pagetable srcva mx = copyinstr_loop s pagetable [] srcva mx"

section \<open>Mapped file regions\<close>

text \<open>
  Modelled from the spec: \<open>struct vma\<close> and the fields of \<open>struct proc\<close> that \<open>vm.c\<close> uses,
  whose header \<open>proc.h\<close> is not among the sources. A region has a base address (0 marks a
  free slot), a length, protection and sharing flags, a file offset and a file handle.
  \<open>mmap\<close> stores two \<open>uint64\<close> values into \<open>addr\<close> and \<open>length\<close> and two \<open>int\<close> values into
  \<open>prot\<close> and \<open>flags\<close>; \<open>fileoff\<close> is taken to be 64 bits wide, since \<open>printvma\<close> prints it
  as a pointer like \<open>addr\<close> and \<open>length\<close>. The file handle is a number that names the
  file; the region table \<open>vmatable\<close> is a list of \<open>MAXVMA\<close> regions.
\<close>

record vma =
  vma_addr :: uint64
  vma_length :: uint64
  vma_prot :: int32
  vma_flags :: int32
  vma_fileoff :: uint64
  vma_f :: nat

record proc =
  p_pagetable :: uint64
  p_vmatable :: "vma list"

text \<open>
  Modelled from the spec: the file layer's \<open>readi\<close> (\<open>readBytes(inode, offset, dstFrame,
  length)\<close> with result \<open>bytesRead\<close>), whose file is not among the sources. The inode is the
  list of the file's bytes; the call copies the bytes from \<open>off\<close> on, at most \<open>n\<close> and at
  most to the end of the file, to \<open>dst\<close> and returns their number, which is 0 at or beyond
  the end of the file.
\<close>

definition readi :: "byte list \<Rightarrow> kstate \<Rightarrow> uint64 \<Rightarrow> int32 \<Rightarrow> int32 \<Rightarrow> int32 \<times> kstate" where
  "readi ip s dst off n =
     (if length ip < unat off then (0, s)
      else let k = min (unat n) (length ip - unat off)
           in (of_nat k, s\<lparr>physmem := write_bytes (physmem s) dst (take k (drop (unat off) ip))\<rparr>))"

text \<open>
  \<open>mmapapage\<close>, the page-fault handler of a mapped region. The current process is the
  argument \<open>p\<close>, \<open>files\<close> gives the inode of each file handle. The loop over the region
  table is \<open>mmapapage_scan\<close>. Besides the returned \<open>int\<close> and the state the model returns
  the calls of \<open>readi\<close> the handler has made, each as destination, offset and length.
  Locking is left out.
\<close>

type_synonym rcall = "uint64 \<times> int32 \<times> int32"

fun mmapapage_scan ::
  "config \<Rightarrow> (nat \<Rightarrow> byte list) \<Rightarrow> kstate \<Rightarrow> uint64 \<Rightarrow> uint64 \<Rightarrow> vma list
     \<Rightarrow> int32 \<times> kstate \<times> rcall list" where
  "mmapapage_scan cfg files s pte addr [] = (- 1, s, [])"
| "mmapapage_scan cfg files s pte addr (v # vs) =
     (let vma_low = vma_addr v in
      if vma_low = 0 then mmapapage_scan cfg files s pte addr vs
      else let vma_high = vma_low + vma_length v in
        if vma_low \<le> addr \<and> addr < vma_high
        then (let map_file_off = (ucast (addr - vma_low) :: int32)
              in case kalloc s of (dst, s1) \<Rightarrow>
                   if dst = 0 then (- 1, s1, [])
                   else let s2 = s1\<lparr>physmem := memset (physmem s1) dst 0 PGSIZE\<rparr>;
                            s3 = s2\<lparr>physmem := store64 (physmem s2) pte
                                   (PA2PTE dst OR PTE_U OR PTE_V OR PTE_M cfg
                                    OR PROT2FLAG cfg (vma_prot v))\<rparr>
                        in case readi (files (vma_f v)) s3 dst map_file_off (ucast PGSIZE) of
                             (r, s4) \<Rightarrow>
                               if r = 0 then (- 1, s4, [(dst, map_file_off, ucast PGSIZE)])
                               else (0, s4, [(dst, map_file_off, ucast PGSIZE)]))
        else mmapapage_scan cfg files s pte addr vs)"

definition mmapapage ::
  "config \<Rightarrow> (nat \<Rightarrow> byte list) \<Rightarrow> proc \<Rightarrow> kstate \<Rightarrow> uint64
     \<Rightarrow> panic + int32 \<times> kstate \<times> rcall list" where
  "mmapapage cfg files p s addr0 =
     (let addr = PGROUNDDOWN addr0 in
      case walk s (p_pagetable p) addr False of
        Inl e \<Rightarrow> Inl e
      | Inr (pte, s1) \<Rightarrow>
          if pte = 0 \<or> load64 (physmem s1) pte AND PTE_M cfg = 0 then Inr (- 1, s1, [])
          else Inr (mmapapage_scan cfg files s1 pte addr (p_vmatable p)))"


text \<open>
  Modelled from the spec: the file layer's \<open>writei\<close> (\<open>writeBytes\<close> with result
  \<open>bytesWritten\<close>, 0 for a short write, or an error), whose file is not among the sources.
  What \<open>writei\<close> returns is not computed by the model: the results of the successive calls
  are given as a list \<open>rs\<close>, and \<open>munmap\<close> has no result (\<open>None\<close>) when the list ends before
  the loop does. The model records each call as source address, offset, length and the
  result it got.

  \<open>writeback\<close> is the \<open>while (i < n)\<close> loop of \<open>munmap\<close>; it returns \<open>ret\<close> and the calls.
  \<open>i\<close>, \<open>n\<close>, \<open>n1\<close>, \<open>mx\<close> (the C variable \<open>max\<close>) and \<open>r\<close> are C \<open>int\<close>s, the file offset
  is a \<open>uint\<close>.
\<close>

type_synonym wcall = "uint64 \<times> int32 \<times> int32 \<times> int32"

fun writeback ::
  "int32 list \<Rightarrow> uint64 \<Rightarrow> int32 \<Rightarrow> int32 \<Rightarrow> int32 \<Rightarrow> int32 \<Rightarrow> wcall list
     \<Rightarrow> (int32 \<times> wcall list) option" where
  "writeback [] low n mx i map_file_off calls =
     (if i <s n then None else Some (0, calls))"
| "writeback (r # rs) low n mx i map_file_off calls =
     (if i <s n then
        (let n1 = n - i;
             n1 = (if mx <s n1 then mx else n1);
             c = (low + scast i, map_file_off, n1, r);
             map_file_off' = (if 0 <s r then map_file_off + r else map_file_off)
         in if r = 0 then Some (0, calls @ [c])
            else if r = - 1 then Some (- 1, calls @ [c])
            else writeback rs low n mx (i + r) map_file_off' (calls @ [c]))
      else Some (0, calls))"

definition writeback_max :: "config \<Rightarrow> int32" where
  "writeback_max cfg =
     word_of_int (sint (MAXOPBLOCKS cfg - 1 - 1 - 2) sdiv 2) * BSIZE cfg"

text \<open>
  The body of \<open>munmap\<close> for the region \<open>v\<close> it has found: the writeback, the update of the
  region, and the removal of the pages. It returns \<open>ret\<close>, the updated region, the state,
  the calls of \<open>writei\<close> and the file handles passed to \<open>fileclose\<close>.
\<close>

definition vma_after_unmap :: "vma \<Rightarrow> uint64 \<Rightarrow> uint64 \<Rightarrow> vma \<times> nat list" where
  "vma_after_unmap v low high =
     (let vma_low = vma_addr v; vma_high = vma_low + vma_length v in
      if low = vma_low \<and> high = vma_high then (v\<lparr>vma_addr := 0\<rparr>, [vma_f v])
      else if vma_low < low then (v\<lparr>vma_length := low - vma_low\<rparr>, [])
      else if high < vma_high
      then (let v1 = v\<lparr>vma_length := vma_length v + (vma_addr v - high)\<rparr>;
                v2 = v1\<lparr>vma_fileoff := vma_fileoff v1 + (high - vma_addr v1)\<rparr>
            in (v2\<lparr>vma_addr := high\<rparr>, []))
      else (v, []))"

definition munmap_region ::
  "config \<Rightarrow> int32 list \<Rightarrow> kstate \<Rightarrow> uint64 \<Rightarrow> uint64 \<Rightarrow> uint64 \<Rightarrow> int32 \<Rightarrow> vma
     \<Rightarrow> (panic + int32 \<times> vma \<times> kstate \<times> wcall list \<times> nat list) option" where
  "munmap_region cfg rs s pg low high n v =
     (case (if vma_flags v AND MAP_SHARED cfg \<noteq> 0 \<and> vma_prot v AND PROT_WRITE cfg \<noteq> 0
            then writeback rs low n (writeback_max cfg) 0
                   (ucast (vma_fileoff v + (low - vma_addr v))) []
            else Some (0, [])) of
        None \<Rightarrow> None
      | Some (ret, calls) \<Rightarrow>
          (case vma_after_unmap v low high of (v', closed) \<Rightarrow>
             (case uvmunmap s pg low ((high - low) div PGSIZE) True of
                Inl e \<Rightarrow> Some (Inl e)
              | Inr s1 \<Rightarrow> Some (Inr (ret, v', s1, calls, closed)))))"

text \<open>
  \<open>munmap\<close>: the loop over the region table is \<open>munmap_scan\<close>, with the regions passed
  over kept in \<open>before\<close>. The result is \<open>ret\<close>, the region table, the state, the calls of
  \<open>writei\<close> and the closed file handles.
\<close>

fun munmap_scan ::
  "config \<Rightarrow> int32 list \<Rightarrow> kstate \<Rightarrow> uint64 \<Rightarrow> uint64 \<Rightarrow> uint64 \<Rightarrow> uint64 \<Rightarrow> int32
     \<Rightarrow> vma list \<Rightarrow> vma list
     \<Rightarrow> (panic + int32 \<times> vma list \<times> kstate \<times> wcall list \<times> nat list) option" where
  "munmap_scan cfg rs s pg addr low high n before [] = Some (Inr (0, before, s, [], []))"
| "munmap_scan cfg rs s pg addr low high n before (v # vs) =
     (let vma_low = vma_addr v in
      if vma_low = 0 then munmap_scan cfg rs s pg addr low high n (before @ [v]) vs
      else let vma_high = vma_low + vma_length v in
        if addr < vma_low \<or> vma_high \<le> addr
        then munmap_scan cfg rs s pg addr low high n (before @ [v]) vs
        else (case munmap_region cfg rs s pg low high n v of
                None \<Rightarrow> None
              | Some (Inl e) \<Rightarrow> Some (Inl e)
              | Some (Inr (ret, v', s1, calls, closed)) \<Rightarrow>
                  Some (Inr (ret, before @ v' # vs, s1, calls, closed))))"

definition munmap ::
  "config \<Rightarrow> int32 list \<Rightarrow> proc \<Rightarrow> kstate \<Rightarrow> uint64 \<Rightarrow> int32
     \<Rightarrow> (panic + int32 \<times> vma list \<times> kstate \<times> wcall list \<times> nat list) option" where
  "munmap cfg rs p s addr len =
     (let low = PGROUNDDOWN addr;
          high = PGROUNDUP (addr + scast len);
          n = (ucast (high - low) :: int32)
      in munmap_scan cfg rs s (p_pagetable p) addr low high n [] (p_vmatable p))"


section \<open>Predicates on the calls of the file layer\<close>

text \<open>
  A recorded call of \<open>writei\<close> is its source address, file offset, length and result.
  \<open>chained off cs\<close> says that the calls \<open>cs\<close> start at the offset \<open>off\<close> and that each call
  starts where the one before it has advanced the offset to: by the result, when that is
  positive. \<open>obeys c\<close> says that the result of the call \<open>c\<close> is one that \<open>writei\<close> can return:
  -1 for an error, or a number of bytes between 0 and the length asked for.
\<close>

fun chained :: "int32 \<Rightarrow> wcall list \<Rightarrow> bool" where
  "chained off [] = True"
| "chained off ((src, off', n1, r) # cs) =
     (off' = off \<and> chained (if 0 <s r then off + r else off) cs)"

definition wresult :: "wcall \<Rightarrow> int32" where
  "wresult c = (case c of (src, off, n1, r) \<Rightarrow> r)"

definition wlength :: "wcall \<Rightarrow> int32" where
  "wlength c = (case c of (src, off, n1, r) \<Rightarrow> n1)"

definition obeys :: "wcall \<Rightarrow> bool" where
  "obeys c = (case c of (src, off, n1, r) \<Rightarrow> r = - 1 \<or> (0 \<le>s r \<and> r \<le>s n1))"

section \<open>Predicates on page tables\<close>

text \<open>
  The properties below speak of a page table through what \<open>walk\<close> reads in it. For a
  virtual address \<open>va\<close> and the root table \<open>pt\<close>: \<open>pte2\<close> is the root entry that \<open>walk\<close>
  reads, \<open>has1\<close> says that it is valid, and \<open>tab1\<close> is the level-1 table it names; \<open>pte1\<close>,
  \<open>has0\<close> and \<open>tab0\<close> are the same one level down. \<open>slot0\<close> is the address of the leaf
  entry, which is what \<open>walk\<close> returns when both tables exist, and \<open>leaf\<close> is the entry
  stored there (0 when a table is missing). \<open>valid\<close> is the test \<open>pte & PTE_V\<close>.
\<close>

definition page_aligned :: "uint64 \<Rightarrow> bool" where
  "page_aligned a \<longleftrightarrow> a AND (PGSIZE - 1) = 0"

definition valid :: "uint64 \<Rightarrow> bool" where
  "valid pte \<longleftrightarrow> pte AND PTE_V \<noteq> 0"

definition pte2 :: "memory \<Rightarrow> uint64 \<Rightarrow> uint64 \<Rightarrow> uint64" where
  "pte2 m pt va = load64 m (pt + 8 * PX 2 va)"

definition has1 :: "memory \<Rightarrow> uint64 \<Rightarrow> uint64 \<Rightarrow> bool" where
  "has1 m pt va \<longleftrightarrow> pte2 m pt va AND PTE_V \<noteq> 0"

definition tab1 :: "memory \<Rightarrow> uint64 \<Rightarrow> uint64 \<Rightarrow> uint64" where
  "tab1 m pt va = PTE2PA (pte2 m pt va)"

definition pte1 :: "memory \<Rightarrow> uint64 \<Rightarrow> uint64 \<Rightarrow> uint64" where
  "pte1 m pt va = load64 m (tab1 m pt va + 8 * PX 1 va)"

definition has0 :: "memory \<Rightarrow> uint64 \<Rightarrow> uint64 \<Rightarrow> bool" where
  "has0 m pt va \<longleftrightarrow> has1 m pt va \<and> pte1 m pt va AND PTE_V \<noteq> 0"

definition tab0 :: "memory \<Rightarrow> uint64 \<Rightarrow> uint64 \<Rightarrow> uint64" where
  "tab0 m pt va = PTE2PA (pte1 m pt va)"

definition slot0 :: "memory \<Rightarrow> uint64 \<Rightarrow> uint64 \<Rightarrow> uint64" where
  "slot0 m pt va = tab0 m pt va + 8 * PX 0 va"

definition leaf :: "memory \<Rightarrow> uint64 \<Rightarrow> uint64 \<Rightarrow> uint64" where
  "leaf m pt va = (if has0 m pt va then load64 m (slot0 m pt va) else 0)"

text \<open>
  \<open>tables1\<close> and \<open>tables0\<close> are the level-1 and level-0 tables that the root table \<open>pt\<close>
  reaches. The page table is well formed, \<open>pt_ok\<close>, when the root is page aligned and the
  root, the level-1 tables and the level-0 tables are different pages, so that a store
  into a table of one level changes no entry of another level. The allocator's free list
  is well formed, \<open>free_ok\<close>, when its pages are different, page aligned, not at address
  0, and none of them is a page of the page table.
\<close>

definition tables1 :: "memory \<Rightarrow> uint64 \<Rightarrow> uint64 set" where
  "tables1 m pt = {tab1 m pt va | va. has1 m pt va}"

definition tables0 :: "memory \<Rightarrow> uint64 \<Rightarrow> uint64 set" where
  "tables0 m pt = {tab0 m pt va | va. has0 m pt va}"

definition pt_ok :: "memory \<Rightarrow> uint64 \<Rightarrow> bool" where
  "pt_ok m pt \<longleftrightarrow>
     page_aligned pt \<and> pt \<notin> tables1 m pt \<and> pt \<notin> tables0 m pt \<and>
     tables1 m pt \<inter> tables0 m pt = {}"

definition free_ok :: "memory \<Rightarrow> uint64 \<Rightarrow> uint64 list \<Rightarrow> bool" where
  "free_ok m pt fl \<longleftrightarrow>
     distinct fl \<and> (\<forall>p\<in>set fl. page_aligned p \<and> p \<noteq> 0) \<and>
     set fl \<inter> ({pt} \<union> tables1 m pt \<union> tables0 m pt) = {}"

text \<open>
  The tables form a tree, \<open>pt_tree\<close>, when no table is entered from two entries: two
  addresses that reach the same level-1 table have the same index in the root table, and
  two addresses that reach the same level-0 table have the same indices in the root and
  in the level-1 table. Then different pages have different leaf slots.
\<close>

definition pt_tree :: "memory \<Rightarrow> uint64 \<Rightarrow> bool" where
  "pt_tree m pt \<longleftrightarrow>
     (\<forall>va vb. has1 m pt va \<and> has1 m pt vb \<and> tab1 m pt va = tab1 m pt vb \<longrightarrow>
        PX 2 va = PX 2 vb) \<and>
     (\<forall>va vb. has0 m pt va \<and> has0 m pt vb \<and> tab0 m pt va = tab0 m pt vb \<longrightarrow>
        PX 2 va = PX 2 vb \<and> PX 1 va = PX 1 vb)"

text \<open>
  What a call of \<open>walk\<close> with \<open>alloc\<close> set leaves, \<open>walk_post\<close>: the page table and the free
  list are still well formed, no leaf entry has changed, the leaf slots that existed are
  where they were, the slot returned (when it is not 0) is the leaf slot of \<open>va\<close>, and the
  pages taken from the free list have become tables. \<open>grows m m' pt\<close> says that from the
  memory \<open>m\<close> to \<open>m'\<close> no leaf slot has moved and no valid leaf entry has changed.
\<close>

definition walk_post :: "kstate \<Rightarrow> uint64 \<Rightarrow> uint64 \<Rightarrow> uint64 \<Rightarrow> kstate \<Rightarrow> bool" where
  "walk_post s pt va slot s' \<longleftrightarrow>
     pt_ok (physmem s') pt \<and> free_ok (physmem s') pt (freelist s') \<and>
     (\<forall>vb. leaf (physmem s') pt vb = leaf (physmem s) pt vb) \<and>
     (\<forall>vb. has0 (physmem s) pt vb \<longrightarrow>
        has0 (physmem s') pt vb \<and> slot0 (physmem s') pt vb = slot0 (physmem s) pt vb) \<and>
     (slot \<noteq> 0 \<longrightarrow> has0 (physmem s') pt va \<and> slot0 (physmem s') pt va = slot) \<and>
     (\<exists>used. freelist s = used @ freelist s' \<and>
        set used \<subseteq> tables1 (physmem s') pt \<union> tables0 (physmem s') pt) \<and>
     tables1 (physmem s) pt \<subseteq> tables1 (physmem s') pt \<and>
     tables0 (physmem s) pt \<subseteq> tables0 (physmem s') pt"

definition grows :: "memory \<Rightarrow> memory \<Rightarrow> uint64 \<Rightarrow> bool" where
  "grows m m' pt \<longleftrightarrow>
     (\<forall>vb. has0 m pt vb \<longrightarrow> has0 m' pt vb \<and> slot0 m' pt vb = slot0 m pt vb) \<and>
     (\<forall>vb. valid (leaf m pt vb) \<longrightarrow> leaf m' pt vb = leaf m pt vb)"

text \<open>
  \<open>page va k\<close> is the address of the \<open>k\<close>-th page from \<open>va\<close> on, and \<open>entry pa perm\<close> is the
  leaf entry that \<open>mappages\<close> stores for the frame \<open>pa\<close> and the permissions \<open>perm\<close>.
\<close>

definition page :: "uint64 \<Rightarrow> nat \<Rightarrow> uint64" where
  "page va k = va + of_nat k * PGSIZE"

definition entry :: "uint64 \<Rightarrow> int32 \<Rightarrow> uint64" where
  "entry pa perm = PA2PTE pa OR scast perm OR PTE_V"

text \<open>
  For the \<open>n\<close> pages from \<open>va\<close> on: \<open>touched\<close> says that the leaf slot of the address \<open>vb\<close> is
  the leaf slot of one of these pages, and \<open>frames\<close> is the set of the frames that their
  valid leaf entries name, a frame address of 0 standing for no frame. \<open>unmapped\<close>
  relates the state before a removal of these pages to the state after it: the leaf
  slots are where they were, the valid entries in the slots of these pages have become
  0 and every other entry is as it was, and when \<open>do_free\<close> is set the frames of these
  pages, and nothing else, have been put on the free list.
\<close>

definition touched :: "memory \<Rightarrow> uint64 \<Rightarrow> uint64 \<Rightarrow> nat \<Rightarrow> uint64 \<Rightarrow> bool" where
  "touched m pt va n vb \<longleftrightarrow>
     has0 m pt vb \<and>
     (\<exists>k<n. has0 m pt (page va k) \<and> slot0 m pt vb = slot0 m pt (page va k))"

definition frames :: "memory \<Rightarrow> uint64 \<Rightarrow> uint64 \<Rightarrow> nat \<Rightarrow> uint64 set" where
  "frames m pt va n =
     {PTE2PA (leaf m pt (page va k)) | k.
        k < n \<and> valid (leaf m pt (page va k)) \<and> PTE2PA (leaf m pt (page va k)) \<noteq> 0}"

definition unmapped :: "kstate \<Rightarrow> uint64 \<Rightarrow> uint64 \<Rightarrow> nat \<Rightarrow> bool \<Rightarrow> kstate \<Rightarrow> bool" where
  "unmapped s pt va n do_free s' \<longleftrightarrow>
     (\<forall>vb. has0 (physmem s') pt vb = has0 (physmem s) pt vb) \<and>
     (\<forall>vb. has0 (physmem s) pt vb \<longrightarrow> slot0 (physmem s') pt vb = slot0 (physmem s) pt vb) \<and>
     (\<forall>vb. leaf (physmem s') pt vb =
        (if touched (physmem s) pt va n vb \<and> valid (leaf (physmem s) pt vb) then 0
         else leaf (physmem s) pt vb)) \<and>
     (\<exists>fs. freelist s' = fs @ freelist s \<and>
        set fs = (if do_free then frames (physmem s) pt va n else {}))"

section \<open>Example inputs\<close>

text \<open>
  The inputs at which the theorems below are instantiated. \<open>lab_config\<close> gives the
  parameters values: the tag bit is the first software bit of an entry, \<open>PROT2FLAG\<close> shifts
  the protection flags (read 1, write 2, execute 4) onto the entry's read, write and
  execute bits, and the file system has its usual block size and transaction budget.
\<close>

definition lab_config :: config where
  "lab_config = \<lparr>PTE_M = 0x100, PROT2FLAG = (\<lambda>prot. push_bit 1 (ucast prot)),
     MAP_SHARED = 1, PROT_WRITE = 2, MAXOPBLOCKS = 10, BSIZE = 1024\<rparr>"

definition zero_mem :: memory where
  "zero_mem = (\<lambda>x. 0)"

text \<open>
  A process with the root table at \<open>0x80001000\<close>, one level-1 table at \<open>0x80002000\<close> and
  one level-0 table at \<open>0x80003000\<close>. Pages 4 and 5 are reserved for a region of two pages
  at \<open>0x4000\<close> that maps a file from its offset 8192 on; one frame is free.
\<close>

definition fault_mem :: memory where
  "fault_mem =
     store64 (store64 (store64 (store64 zero_mem 0x80001000 (PA2PTE 0x80002000 OR PTE_V))
        0x80002000 (PA2PTE 0x80003000 OR PTE_V))
        0x80003020 (PTE_V OR PTE_U OR 0x100))
        0x80003028 (PTE_V OR PTE_U OR 0x100)"

definition fault_state :: kstate where
  "fault_state = \<lparr>physmem = fault_mem, freelist = [0x80004000]\<rparr>"

definition fault_proc :: proc where
  "fault_proc = \<lparr>p_pagetable = 0x80001000,
     p_vmatable = [\<lparr>vma_addr = 0x4000, vma_length = 0x2000, vma_prot = 1, vma_flags = 1,
                     vma_fileoff = 8192, vma_f = 0\<rparr>]\<rparr>"

definition fault_files :: "nat \<Rightarrow> byte list" where
  "fault_files = (\<lambda>f. replicate 16384 0x41)"

text \<open>
  A parent address space with the root table at \<open>0x80001000\<close> whose page 0 is not present
  and whose page 1 is mapped to the frame \<open>0x80004000\<close>, readable and writable by the
  user. The child's root table at \<open>0x80005000\<close> is empty and no frame is free.
\<close>

definition copy_mem :: memory where
  "copy_mem =
     store64 (store64 (store64 zero_mem 0x80001000 (PA2PTE 0x80002000 OR PTE_V))
        0x80002000 (PA2PTE 0x80003000 OR PTE_V))
        0x80003008 (PA2PTE 0x80004000 OR PTE_V OR PTE_R OR PTE_W OR PTE_U)"

definition copy_state :: kstate where
  "copy_state = \<lparr>physmem = copy_mem, freelist = []\<rparr>"

text \<open>
  A process whose region of two pages at \<open>0x4000\<close> is shared and writable and maps a file
  from its offset 8192 on. Page 4 has been faulted in, to the frame \<open>0x80006000\<close>; page 5
  is still reserved. \<open>wb_unmapped\<close> is the state after both pages have been unmapped.
\<close>

definition wb_mem :: memory where
  "wb_mem =
     store64 (store64 (store64 (store64 zero_mem 0x80001000 (PA2PTE 0x80002000 OR PTE_V))
        0x80002000 (PA2PTE 0x80003000 OR PTE_V))
        0x80003020 (PA2PTE 0x80006000 OR PTE_V OR PTE_R OR PTE_W OR PTE_U OR 0x100))
        0x80003028 (PTE_V OR PTE_U OR 0x100)"

definition wb_state :: kstate where
  "wb_state = \<lparr>physmem = wb_mem, freelist = []\<rparr>"

definition wb_proc :: proc where
  "wb_proc = \<lparr>p_pagetable = 0x80001000,
     p_vmatable = [\<lparr>vma_addr = 0x4000, vma_length = 0x2000, vma_prot = 3, vma_flags = 1,
                     vma_fileoff = 8192, vma_f = 0\<rparr>]\<rparr>"

definition wb_unmapped :: kstate where
  "wb_unmapped = \<lparr>physmem = store64 (store64 wb_mem 0x80003020 0) 0x80003028 0,
                   freelist = [0x80006000]\<rparr>"

text \<open>
  An empty root table at \<open>0x80001000\<close> and two free pages. \<open>map_tables\<close> is the memory
  after \<open>walk\<close> has made the two free pages the level-1 and the level-0 table of page 0;
  \<open>map_done pa\<close> is the state after page 0 has been mapped to \<open>pa\<close>, readable by the user,
  and \<open>map_two\<close> the state after pages 0 and 1 have been mapped to \<open>0x5000\<close> and \<open>0x6000\<close>.
\<close>

definition map_state :: kstate where
  "map_state = \<lparr>physmem = zero_mem, freelist = [0x80002000, 0x80003000]\<rparr>"

definition map_tables :: memory where
  "map_tables =
     store64 (memset (store64 (memset zero_mem 0x80002000 0 PGSIZE) 0x80001000
                        (PA2PTE 0x80002000 OR PTE_V))
                0x80003000 0 PGSIZE)
       0x80002000 (PA2PTE 0x80003000 OR PTE_V)"

definition map_done :: "uint64 \<Rightarrow> kstate" where
  "map_done pa = \<lparr>physmem = store64 map_tables 0x80003000 (PA2PTE pa OR 18 OR PTE_V),
                   freelist = []\<rparr>"

definition map_two :: kstate where
  "map_two = \<lparr>physmem = store64 (store64 map_tables 0x80003000 (PA2PTE 0x5000 OR 18 OR PTE_V))
                             0x80003008 (PA2PTE 0x6000 OR 18 OR PTE_V),
               freelist = []\<rparr>"

section \<open>Properties\<close>

subsection \<open>Loads and stores\<close>

lemma ucast_byte: "(ucast (ucast (w::64 word) :: 8 word) :: 64 word) = take_bit 8 w"
  by (rule bit_word_eqI) (auto simp: bit_simps)

lemma store64_at: "i < 8 \<Longrightarrow> store64 m a v (a + i) = ucast (drop_bit (8 * unat i) v)"
  by (simp add: store64_def)

lemma bytes_join: 
  "take_bit 8 (v::64 word) OR push_bit 8 (take_bit 8 (drop_bit 8 v)) OR push_bit 16 (take_bit 8 (drop_bit 16 v))
     OR push_bit 24 (take_bit 8 (drop_bit 24 v)) OR push_bit 32 (take_bit 8 (drop_bit 32 v))
     OR push_bit 40 (take_bit 8 (drop_bit 40 v)) OR push_bit 48 (take_bit 8 (drop_bit 48 v))
     OR push_bit 56 (take_bit 8 (drop_bit 56 v)) = v"
proof (rule bit_word_eqI)
  fix n assume n: "n < LENGTH(64)"
  then consider "n < 8" | "8 \<le> n \<and> n < 16" | "16 \<le> n \<and> n < 24" | "24 \<le> n \<and> n < 32"
     | "32 \<le> n \<and> n < 40" | "40 \<le> n \<and> n < 48" | "48 \<le> n \<and> n < 56" | "56 \<le> n \<and> n < 64"
    by fastforce
  then show "bit (take_bit 8 (v::64 word) OR push_bit 8 (take_bit 8 (drop_bit 8 v)) OR push_bit 16 (take_bit 8 (drop_bit 16 v))
     OR push_bit 24 (take_bit 8 (drop_bit 24 v)) OR push_bit 32 (take_bit 8 (drop_bit 32 v))
     OR push_bit 40 (take_bit 8 (drop_bit 40 v)) OR push_bit 48 (take_bit 8 (drop_bit 48 v))
     OR push_bit 56 (take_bit 8 (drop_bit 56 v))) n = bit v n"
    by cases (auto simp: bit_simps)
qed

lemma load_store_same: "load64 (store64 m a v) a = v"
proof -
  have "store64 m a v a = ucast v" using store64_at[of 0 m a v] by simp
  then show ?thesis
    using store64_at[of 1 m a v] store64_at[of 2 m a v] store64_at[of 3 m a v] store64_at[of 4 m a v]
       store64_at[of 5 m a v] store64_at[of 6 m a v] store64_at[of 7 m a v]
    by (simp add: load64_def ucast_byte bytes_join)
qed

lemma load64_cong:
  "(\<And>j. j < 8 \<Longrightarrow> m' (b + j) = m (b + j)) \<Longrightarrow> load64 m' b = load64 m b"
proof -
  assume h: "\<And>j. j < 8 \<Longrightarrow> m' (b + j) = m (b + j)"
  have "m' b = m b" using h[of 0] by simp
  then show ?thesis
    using h[of 1] h[of 2] h[of 3] h[of 4] h[of 5] h[of 6] h[of 7]
    by (simp add: load64_def)
qed

lemma unat_add_small:
  "d \<le> (0xFFFFFFFFFFFFFFF8::uint64) \<Longrightarrow> j < 8 \<Longrightarrow> unat (d + j) = unat d + unat j"
proof -
  assume "d \<le> 0xFFFFFFFFFFFFFFF8" "j < 8"
  then have "unat d \<le> 18446744073709551608" "unat j < 8"
    by (simp_all add: word_le_nat_alt word_less_nat_alt)
  then have "unat d + unat j < 2 ^ LENGTH(64)"
    by simp
  then show ?thesis
    by (simp only: unat_add_lem)
qed

lemma far_add: "(n::uint64) \<le> d \<Longrightarrow> d \<le> 0xFFFFFFFFFFFFFFF8 \<Longrightarrow> j < 8 \<Longrightarrow> n \<le> d + j"
  by (simp add: word_le_nat_alt unat_add_small)

lemma near_add: "(d::uint64) \<le> n - 8 \<Longrightarrow> 8 \<le> n \<Longrightarrow> j < 8 \<Longrightarrow> d + j < n"
proof -
  assume a: "d \<le> n - 8" "8 \<le> n" "j < 8"
  then have n8: "unat (n - 8) = unat n - 8"
    by (simp add: unat_sub)
  have "unat n < 2 ^ 64" using unsigned_less[of n] by simp
  with a n8 have "d \<le> 0xFFFFFFFFFFFFFFF8"
    by (simp add: word_le_nat_alt)
  with a n8 show ?thesis
    by (simp add: word_le_nat_alt word_less_nat_alt unat_add_small)
qed

lemma byte_addr_diff: "(b::uint64) + j - a = (b - a) + j"
  by simp

lemma store64_far:
  "8 \<le> b - a \<Longrightarrow> b - a \<le> 0xFFFFFFFFFFFFFFF8 \<Longrightarrow> j < 8 \<Longrightarrow> store64 m a v (b + j) = m (b + j)"
  using far_add [of 8 "b - a" j] by (simp add: store64_def byte_addr_diff not_less [symmetric])

lemma load_store_other:
  "8 \<le> b - a \<Longrightarrow> b - a \<le> 0xFFFFFFFFFFFFFFF8 \<Longrightarrow> load64 (store64 m a v) b = load64 m b"
  by (rule load64_cong) (rule store64_far)

lemma memset_far:
  "n \<le> b - p \<Longrightarrow> b - p \<le> 0xFFFFFFFFFFFFFFF8 \<Longrightarrow> j < 8 \<Longrightarrow> memset m p c n (b + j) = m (b + j)"
  using far_add [of n "b - p" j] by (simp add: memset_def byte_addr_diff not_less [symmetric])

lemma load_memset_other:
  "n \<le> b - p \<Longrightarrow> b - p \<le> 0xFFFFFFFFFFFFFFF8 \<Longrightarrow> load64 (memset m p c n) b = load64 m b"
  by (rule load64_cong) (rule memset_far)

lemma load64_zero: "(\<And>j. j < 8 \<Longrightarrow> m (b + j) = 0) \<Longrightarrow> load64 m b = 0"
proof -
  assume h: "\<And>j. j < 8 \<Longrightarrow> m (b + j) = 0"
  have "m b = 0" using h[of 0] by simp
  then show ?thesis
    using h[of 1] h[of 2] h[of 3] h[of 4] h[of 5] h[of 6] h[of 7]
    by (simp add: load64_def)
qed

lemma load_memset_inside:
  "b - p \<le> n - 8 \<Longrightarrow> 8 \<le> n \<Longrightarrow> load64 (memset m p 0 n) b = 0"
proof (rule load64_zero)
  fix j :: uint64 assume "b - p \<le> n - 8" "8 \<le> n" "j < 8"
  then have "(b - p) + j < n" by (rule near_add)
  then show "memset m p 0 n (b + j) = 0"
    by (simp add: memset_def byte_addr_diff)
qed


lemma load_zero_mem: "load64 zero_mem a = 0"
  by (simp add: load64_def zero_mem_def)

lemmas load_simps =
  load_store_same load_store_other load_memset_other load_memset_inside load_zero_mem

lemma walk_level_two: "walk_level s pt va alloc 2 = walk_level s pt va alloc (Suc (Suc 0))"
  by (simp only: numeral_2_eq_2)

subsection \<open>Page tables\<close>

lemma page_aligned_dvd: "page_aligned a \<longleftrightarrow> 4096 dvd unat a"
  using and_mask_dvd_nat [of 12 a] by (simp add: page_aligned_def PGSIZE_mask)

lemma page_aligned_0 [simp]: "page_aligned 0"
  by (simp add: page_aligned_def)

lemma page_aligned_bits: "page_aligned a \<longleftrightarrow> (\<forall>n. bit a n \<longrightarrow> 12 \<le> n)"
proof
  assume "page_aligned a"
  then have z: "a AND mask 12 = 0" by (simp add: page_aligned_def PGSIZE_mask)
  show "\<forall>n. bit a n \<longrightarrow> 12 \<le> n"
  proof (intro allI impI)
    fix n assume b: "bit a n"
    show "12 \<le> n"
    proof (rule ccontr)
      assume "\<not> 12 \<le> n"
      with b have "bit (a AND mask 12) n" by (simp add: bit_simps)
      with z show False by simp
    qed
  qed
next
  assume "\<forall>n. bit a n \<longrightarrow> 12 \<le> n"
  then show "page_aligned a"
    unfolding page_aligned_def PGSIZE_mask by (auto simp: bit_eq_iff bit_simps)
qed

lemma page_aligned_PGROUNDDOWN [simp]: "page_aligned (PGROUNDDOWN a)"
  by (simp add: page_aligned_bits bit_PGROUNDDOWN)

lemma page_aligned_PGROUNDUP [simp]: "page_aligned (PGROUNDUP a)"
  by (auto simp: page_aligned_bits PGROUNDUP_def PGSIZE_mask bit_simps not_less)

lemma page_aligned_PTE2PA [simp]: "page_aligned (PTE2PA x)"
  by (auto simp: page_aligned_bits PTE2PA_def bit_simps)

lemma PGROUNDDOWN_aligned: "page_aligned a \<Longrightarrow> PGROUNDDOWN a = a"
  by (rule bit_word_eqI) (auto simp: page_aligned_bits bit_PGROUNDDOWN)

lemma page_aligned_mod: "page_aligned a \<longleftrightarrow> a mod PGSIZE = 0"
proof -
  have "a mod PGSIZE = a AND mask 12"
    using word_mod_2p_is_mask [of 12 a] by (simp add: PGSIZE_def)
  then show ?thesis
    by (simp add: page_aligned_def PGSIZE_mask)
qed

lemma aligned_unat_bound: "page_aligned t \<Longrightarrow> unat t \<le> 18446744073709547520"
proof -
  assume "page_aligned t"
  then have "4096 dvd unat t" by (simp add: page_aligned_dvd)
  moreover have "unat t < 18446744073709551616"
    using unsigned_less [of t] by simp
  ultimately show ?thesis
    by (elim dvdE) simp
qed

lemma unat_aligned_add:
  "page_aligned t \<Longrightarrow> o' < 4096 \<Longrightarrow> unat (t + o') = unat t + unat o'"
proof -
  assume a: "page_aligned t" "o' < 4096"
  then have "unat o' < 4096" by (simp add: word_less_nat_alt)
  with aligned_unat_bound [OF a(1)] have "unat t + unat o' < 2 ^ LENGTH(64)"
    by simp
  then show ?thesis by (simp only: unat_add_lem)
qed

lemma PX_less: "PX l va < 512"
proof -
  have "PX l va = drop_bit (12 + 9 * l) va AND mask 9"
    by (simp add: PX_def mask_eq_exp_minus_1)
  then show ?thesis
    using and_mask_less' [of 9 "drop_bit (12 + 9 * l) va"] by simp
qed

lemma unat_slot_off: "i < 512 \<Longrightarrow> j < 8 \<Longrightarrow> unat (8 * i + j :: uint64) = 8 * unat i + unat j"
proof -
  assume a: "i < 512" "j < 8"
  then have b: "unat i < 512" "unat j < 8" by (simp_all add: word_less_nat_alt)
  then have "unat (8 :: uint64) * unat i < 2 ^ LENGTH(64)" by simp
  then have m: "unat (8 * i) = 8 * unat i" by (simp only: unat_mult_lem) simp
  with b have "unat (8 * i) + unat j < 2 ^ LENGTH(64)" by simp
  then have "unat (8 * i + j) = unat (8 * i) + unat j" by (simp only: unat_add_lem)
  with m show ?thesis by simp
qed

lemma slot_off_less: "i < 512 \<Longrightarrow> j < 8 \<Longrightarrow> (8 * i + j :: uint64) < 4096"
  by (simp add: word_less_nat_alt unat_slot_off)

lemma unat_slot_byte:
  "page_aligned t \<Longrightarrow> i < 512 \<Longrightarrow> j < 8 \<Longrightarrow> unat (t + 8 * i + j) = unat t + 8 * unat i + unat j"
  using unat_aligned_add [of t "8 * i + j"] by (simp add: slot_off_less unat_slot_off add.assoc)

lemma slot_bytes_distinct:
  assumes "page_aligned t" "page_aligned t'" "i < 512" "i' < 512" "j < 8" "k < 8"
    and eq: "t + 8 * i + j = t' + 8 * i' + k"
  shows "t = t' \<and> i = i' \<and> j = k"
proof -
  have "unat (t + 8 * i + j) = unat t + 8 * unat i + unat j"
    using assms(1,3,5) by (rule unat_slot_byte)
  moreover have "unat (t' + 8 * i' + k) = unat t' + 8 * unat i' + unat k"
    using assms(2,4,6) by (rule unat_slot_byte)
  ultimately have e: "unat t + 8 * unat i + unat j = unat t' + 8 * unat i' + unat k"
    using eq by simp
  from assms have b: "unat i < 512" "unat i' < 512" "unat j < 8" "unat k < 8"
    by (simp_all add: word_less_nat_alt)
  from assms have d: "4096 dvd unat t" "4096 dvd unat t'"
    by (simp_all add: page_aligned_dvd)
  from d obtain a a' where a: "unat t = 4096 * a" "unat t' = 4096 * a'"
    by (auto elim!: dvdE)
  from e a have e2: "4096 * a + (8 * unat i + unat j) = 4096 * a' + (8 * unat i' + unat k)"
    by simp
  from b have "(4096 * a + (8 * unat i + unat j)) div 4096 = a"
    "(4096 * a' + (8 * unat i' + unat k)) div 4096 = a'"
    by simp_all
  with e2 have aa: "a = a'"
    by simp
  with e2 have e': "8 * unat i + unat j = 8 * unat i' + unat k"
    by simp
  from b have "(8 * unat i + unat j) div 8 = unat i" "(8 * unat i' + unat k) div 8 = unat i'"
    by simp_all
  with e' have ii: "unat i = unat i'"
    by simp
  with e' have "unat j = unat k"
    by simp
  with a aa ii have "unat t = unat t' \<and> unat i = unat i' \<and> unat j = unat k"
    by simp
  then show ?thesis by (simp add: word_unat_eq_iff)
qed

lemma diff_less_ex: "(x::uint64) - a < n \<Longrightarrow> \<exists>k<n. x = a + k"
  by (rule exI [of _ "x - a"]) simp

lemma load_store_slot:
  assumes "page_aligned t" "page_aligned t'" "i < 512" "i' < 512" "t \<noteq> t' \<or> i \<noteq> i'"
  shows "load64 (store64 m (t + 8 * i) v) (t' + 8 * i') = load64 m (t' + 8 * i')"
proof (rule load64_cong)
  fix j :: uint64 assume j: "j < 8"
  have "\<not> (t' + 8 * i' + j - (t + 8 * i) < 8)"
  proof
    assume "t' + 8 * i' + j - (t + 8 * i) < 8"
    then obtain k where "k < 8" "t' + 8 * i' + j = t + 8 * i + k"
      using diff_less_ex by blast
    with assms j show False
      using slot_bytes_distinct [of t' t i' i j k] by auto
  qed
  then show "store64 m (t + 8 * i) v (t' + 8 * i' + j) = m (t' + 8 * i' + j)"
    by (simp add: store64_def)
qed

lemma page_bytes_distinct:
  assumes "page_aligned t" "page_aligned p" "o1 < 4096" "o2 < 4096" "t + o1 = p + o2"
  shows "t = p \<and> o1 = o2"
proof -
  have "unat (t + o1) = unat t + unat o1"
    using assms(1,3) by (rule unat_aligned_add)
  moreover have "unat (p + o2) = unat p + unat o2"
    using assms(2,4) by (rule unat_aligned_add)
  ultimately have "unat t + unat o1 = unat p + unat o2"
    using assms(5) by simp
  moreover from assms have "unat o1 < 4096" "unat o2 < 4096" "4096 dvd unat t" "4096 dvd unat p"
    by (simp_all add: word_less_nat_alt page_aligned_dvd)
  ultimately obtain a a' where a: "unat t = 4096 * a" "unat p = 4096 * a'"
    and e: "unat t + unat o1 = unat p + unat o2" and b: "unat o1 < 4096" "unat o2 < 4096"
    by (auto elim!: dvdE)
  from b have "(4096 * a + unat o1) div 4096 = a" "(4096 * a' + unat o2) div 4096 = a'"
    by simp_all
  with e a have aa: "a = a'"
    by simp
  with e a have "unat t = unat p \<and> unat o1 = unat o2"
    by simp
  then show ?thesis by (simp add: word_unat_eq_iff)
qed

lemma load_memset_page_other:
  assumes "page_aligned t" "page_aligned p" "i < 512" "t \<noteq> p"
  shows "load64 (memset m p c PGSIZE) (t + 8 * i) = load64 m (t + 8 * i)"
proof (rule load64_cong)
  fix j :: uint64 assume j: "j < 8"
  have "\<not> (t + 8 * i + j - p < PGSIZE)"
  proof
    assume "t + 8 * i + j - p < PGSIZE"
    then obtain k where "k < 4096" "t + (8 * i + j) = p + k"
      using diff_less_ex [of "t + 8 * i + j" p PGSIZE] by (auto simp: PGSIZE_def add.assoc)
    with assms j show False
      using page_bytes_distinct [of t p "8 * i + j" k] by (simp add: slot_off_less)
  qed
  then show "memset m p c PGSIZE (t + 8 * i + j) = m (t + 8 * i + j)"
    by (simp add: memset_def)
qed

lemma load_memset_page_same:
  assumes "i < 512"
  shows "load64 (memset m p 0 PGSIZE) (p + 8 * i) = 0"
proof (rule load64_zero)
  fix j :: uint64 assume j: "j < 8"
  with assms have "8 * i + j < PGSIZE" by (simp add: slot_off_less PGSIZE_def)
  then show "memset m p 0 PGSIZE (p + 8 * i + j) = 0"
    by (simp add: memset_def add.assoc)
qed

lemma PX_Suc: "PX (Suc (Suc 0)) va = PX 2 va" "PX (Suc 0) va = PX 1 va"
  by (simp_all add: numeral_2_eq_2)

lemma walk_noalloc:
  "walk_level s pt va False 2 =
     (if has0 (physmem s) pt va then slot0 (physmem s) pt va else 0, s)"
  by (simp add: walk_level_two PX_Suc has0_def has1_def pte2_def pte1_def tab1_def tab0_def
        slot0_def Let_def del: One_nat_def)

lemma walk_False:
  "va < MAXVA \<Longrightarrow>
     walk s pt va False = Inr (if has0 (physmem s) pt va then slot0 (physmem s) pt va else 0, s)"
  by (simp add: walk_def walk_noalloc not_le [symmetric])

text \<open>Storing into a leaf slot does not change the tables.\<close>

lemma leaf_store_frame:
  fixes v :: uint64
  assumes ok: "pt_ok m pt" and h: "has0 m pt va"
  defines "m' \<equiv> store64 m (slot0 m pt va) v"
  shows "pte2 m' pt vb = pte2 m pt vb"
    and "has1 m pt vb \<Longrightarrow> pte1 m' pt vb = pte1 m pt vb"
proof -
  have t0: "tab0 m pt va \<in> tables0 m pt"
    using h by (auto simp: tables0_def)
  have al: "page_aligned pt" "page_aligned (tab0 m pt va)"
    using ok by (simp_all add: pt_ok_def tab0_def)
  from ok t0 have ne: "tab0 m pt va \<noteq> pt"
    by (auto simp: pt_ok_def)
  show p2: "pte2 m' pt vb = pte2 m pt vb"
    unfolding pte2_def m'_def slot0_def
    using al ne by (intro load_store_slot) (simp_all add: PX_less)
  assume h1: "has1 m pt vb"
  then have "tab1 m pt vb \<in> tables1 m pt"
    by (auto simp: tables1_def)
  with ok t0 have ne1: "tab0 m pt va \<noteq> tab1 m pt vb"
    by (auto simp: pt_ok_def)
  have "tab1 m' pt vb = tab1 m pt vb"
    by (simp add: tab1_def p2)
  then show "pte1 m' pt vb = pte1 m pt vb"
    unfolding pte1_def
    unfolding m'_def slot0_def
    using al ne1 by (simp add: load_store_slot PX_less tab1_def)
qed

lemma leaf_store_struct:
  fixes v :: uint64
  assumes ok: "pt_ok m pt" and h: "has0 m pt va"
  defines "m' \<equiv> store64 m (slot0 m pt va) v"
  shows "has1 m' pt vb = has1 m pt vb" "tab1 m' pt vb = tab1 m pt vb"
    "has0 m' pt vb = has0 m pt vb" "has0 m pt vb \<Longrightarrow> tab0 m' pt vb = tab0 m pt vb"
    "has0 m pt vb \<Longrightarrow> slot0 m' pt vb = slot0 m pt vb"
proof -
  note f = leaf_store_frame [OF ok h, where v=v and vb=vb, folded m'_def]
  show a: "has1 m' pt vb = has1 m pt vb" by (simp add: has1_def f)
  show "tab1 m' pt vb = tab1 m pt vb" by (simp add: tab1_def f)
  show b: "has0 m' pt vb = has0 m pt vb" using f by (auto simp: has0_def a)
  show c: "has0 m pt vb \<Longrightarrow> tab0 m' pt vb = tab0 m pt vb"
    using f by (simp add: tab0_def has0_def)
  show "has0 m pt vb \<Longrightarrow> slot0 m' pt vb = slot0 m pt vb"
    using c by (simp add: slot0_def)
qed

lemma leaf_store_tables:
  assumes ok: "pt_ok m pt" and h: "has0 m pt va"
  shows "tables1 (store64 m (slot0 m pt va) v) pt = tables1 m pt"
    and "tables0 (store64 m (slot0 m pt va) v) pt = tables0 m pt"
  using leaf_store_struct [OF ok h]
  by (auto simp: tables1_def tables0_def) metis+

lemma leaf_store_ok:
  assumes ok: "pt_ok m pt" and h: "has0 m pt va"
  shows "pt_ok (store64 m (slot0 m pt va) v) pt"
  using ok by (simp add: pt_ok_def leaf_store_tables [OF ok h])

lemma leaf_store_free_ok:
  assumes ok: "pt_ok m pt" and h: "has0 m pt va" and "free_ok m pt fl"
  shows "free_ok (store64 m (slot0 m pt va) v) pt fl"
  using assms(3) by (simp add: free_ok_def leaf_store_tables [OF ok h])

lemma slot_eq_iff:
  "slot0 m pt va = slot0 m pt vb \<longleftrightarrow> tab0 m pt va = tab0 m pt vb \<and> PX 0 va = PX 0 vb"
proof
  assume "slot0 m pt va = slot0 m pt vb"
  then have "tab0 m pt va + 8 * PX 0 va + 0 = tab0 m pt vb + 8 * PX 0 vb + 0"
    by (simp add: slot0_def)
  then show "tab0 m pt va = tab0 m pt vb \<and> PX 0 va = PX 0 vb"
    using slot_bytes_distinct [of "tab0 m pt va" "tab0 m pt vb" "PX 0 va" "PX 0 vb" 0 0]
    by (simp add: PX_less tab0_def)
qed (simp add: slot0_def)

lemma leaf_store_leaf:
  fixes v :: uint64
  assumes ok: "pt_ok m pt" and h: "has0 m pt va"
  defines "m' \<equiv> store64 m (slot0 m pt va) v"
  shows "leaf m' pt vb = (if has0 m pt vb \<and> slot0 m pt vb = slot0 m pt va then v else leaf m pt vb)"
proof (cases "has0 m pt vb")
  case False
  then show ?thesis
    using leaf_store_struct(3) [OF ok h, where v=v and vb=vb] by (simp add: leaf_def m'_def)
next
  case True
  note s = leaf_store_struct [OF ok h, where v=v and vb=vb, folded m'_def]
  show ?thesis
  proof (cases "slot0 m pt vb = slot0 m pt va")
    case True
    with \<open>has0 m pt vb\<close> show ?thesis
      using s by (simp add: leaf_def m'_def load_store_same)
  next
    case False
    then have "tab0 m pt va \<noteq> tab0 m pt vb \<or> PX 0 va \<noteq> PX 0 vb"
      by (auto simp: slot_eq_iff)
    then have "load64 m' (slot0 m pt vb) = load64 m (slot0 m pt vb)"
      unfolding m'_def slot0_def
      by (intro load_store_slot) (simp_all add: PX_less tab0_def)
    with True False show ?thesis
      using s by (simp add: leaf_def)
  qed
qed

lemma bit_PTE2PA: "bit (PTE2PA x) n \<longleftrightarrow> 12 \<le> n \<and> n < 64 \<and> bit x (n - 2)"
  by (auto simp: PTE2PA_def bit_simps) 

lemma bit_PA2PTE: "bit (PA2PTE p) n \<longleftrightarrow> 10 \<le> n \<and> n < 64 \<and> bit p (n + 2)"
  by (auto simp: PA2PTE_def bit_simps add.commute)

lemma bit_PTE_V: "bit PTE_V n \<longleftrightarrow> n = 0"
  by (simp add: PTE_V_def bit_simps)

lemma PTE2PA_link: "page_aligned p \<Longrightarrow> PTE2PA (PA2PTE p OR PTE_V) = p"
proof (rule bit_word_eqI)
  fix n assume al: "page_aligned p" and n: "n < LENGTH(64)"
  show "bit (PTE2PA (PA2PTE p OR PTE_V)) n = bit p n"
  proof (cases "12 \<le> n")
    case True
    then have "Suc (Suc (n - 2)) = n" by simp
    with True n show ?thesis
      by (auto simp: bit_PTE2PA bit_or_iff bit_PA2PTE bit_PTE_V)
  next
    case False
    with al have "\<not> bit p n" by (auto simp: page_aligned_bits)
    with False show ?thesis by (simp add: bit_PTE2PA)
  qed
qed

lemma link_valid: "(PA2PTE p OR PTE_V) AND PTE_V \<noteq> 0"
proof
  assume "(PA2PTE p OR PTE_V) AND PTE_V = 0"
  then have "bit ((PA2PTE p OR PTE_V) AND PTE_V) 0 = bit (0 :: uint64) 0" by simp
  then show False by (simp add: bit_and_iff bit_or_iff bit_PTE_V)
qed

lemma memset_idem: "memset (memset m p c n) p c n = memset m p c n"
  by (auto simp: memset_def)

text \<open>has1 depends on the level-2 index only.\<close>

lemma has1_PX: "PX 2 vb = PX 2 va \<Longrightarrow> has1 m pt vb = has1 m pt va"
  by (simp add: has1_def pte2_def)

lemma tab1_PX: "PX 2 vb = PX 2 va \<Longrightarrow> tab1 m pt vb = tab1 m pt va"
  by (simp add: tab1_def pte2_def)

lemma slot_eq: "page_aligned t \<Longrightarrow> page_aligned t' \<Longrightarrow> i < 512 \<Longrightarrow> i' < 512 \<Longrightarrow>
    t + 8 * i = t' + 8 * i' \<longleftrightarrow> t = t' \<and> i = i'"
  using slot_bytes_distinct [of t t' i i' 0 0] by auto

lemma alloc1:
  fixes p :: uint64
  assumes ok: "pt_ok m pt" and fr: "free_ok m pt (p # ps)" and nh: "\<not> has1 m pt va"
  defines "m' \<equiv> store64 (memset m p 0 PGSIZE) (pt + 8 * PX 2 va) (PA2PTE p OR PTE_V)"
  shows alloc1_pte2:
      "pte2 m' pt vb = (if PX 2 vb = PX 2 va then PA2PTE p OR PTE_V else pte2 m pt vb)"
    and alloc1_pte1: "has1 m pt vb \<Longrightarrow> pte1 m' pt vb = pte1 m pt vb"
    and alloc1_new: "PX 2 vb = PX 2 va \<Longrightarrow> pte1 m' pt vb = 0"
    and alloc1_slot: "has0 m pt vb \<Longrightarrow> load64 m' (slot0 m pt vb) = load64 m (slot0 m pt vb)"
proof -
  from fr have al: "page_aligned p" "p \<noteq> pt" and apt: "page_aligned pt"
    and p1: "p \<notin> tables1 m pt" and p0: "p \<notin> tables0 m pt"
    using ok by (auto simp: free_ok_def pt_ok_def)
  show p2: "pte2 m' pt vb = (if PX 2 vb = PX 2 va then PA2PTE p OR PTE_V else pte2 m pt vb)"
  proof (cases "PX 2 vb = PX 2 va")
    case True
    then show ?thesis by (simp add: pte2_def m'_def load_store_same)
  next
    case False
    then have "pte2 m' pt vb = load64 (memset m p 0 PGSIZE) (pt + 8 * PX 2 vb)"
      unfolding pte2_def m'_def using apt
      by (intro load_store_slot) (simp_all add: PX_less)
    also have "\<dots> = pte2 m pt vb"
      unfolding pte2_def using apt al
      by (intro load_memset_page_other) (simp_all add: PX_less)
    finally show ?thesis using False by simp
  qed
  have t1: "tab1 m' pt vb = (if PX 2 vb = PX 2 va then p else tab1 m pt vb)" for vb
  proof -
    have "pte2 m' pt vb = (if PX 2 vb = PX 2 va then PA2PTE p OR PTE_V else pte2 m pt vb)"
    proof (cases "PX 2 vb = PX 2 va")
      case True
      then show ?thesis by (simp add: pte2_def m'_def load_store_same)
    next
      case False
      then have "pte2 m' pt vb = load64 (memset m p 0 PGSIZE) (pt + 8 * PX 2 vb)"
        unfolding pte2_def m'_def using apt
        by (intro load_store_slot) (simp_all add: PX_less)
      also have "\<dots> = pte2 m pt vb"
        unfolding pte2_def using apt al
        by (intro load_memset_page_other) (simp_all add: PX_less)
      finally show ?thesis using False by simp
    qed
    then show ?thesis by (simp add: tab1_def PTE2PA_link al)
  qed
  show "pte1 m' pt vb = pte1 m pt vb" if h: "has1 m pt vb"
  proof -
    from h nh have ne: "PX 2 vb \<noteq> PX 2 va"
      using has1_PX by blast
    from h have tin: "tab1 m pt vb \<in> tables1 m pt" by (auto simp: tables1_def)
    with ok p1 have d: "tab1 m pt vb \<noteq> pt" "tab1 m pt vb \<noteq> p"
      by (auto simp: pt_ok_def)
    have "pte1 m' pt vb = load64 m' (tab1 m pt vb + 8 * PX 1 vb)"
      using ne by (simp add: pte1_def t1)
    also have "\<dots> = load64 (memset m p 0 PGSIZE) (tab1 m pt vb + 8 * PX 1 vb)"
      unfolding m'_def using apt d
      by (intro load_store_slot) (auto simp: PX_less tab1_def)
    also have "\<dots> = load64 m (tab1 m pt vb + 8 * PX 1 vb)"
      using al d by (intro load_memset_page_other) (simp_all add: PX_less tab1_def)
    finally show ?thesis by (simp add: pte1_def)
  qed
  show "pte1 m' pt vb = 0" if e: "PX 2 vb = PX 2 va"
  proof -
    have "pte1 m' pt vb = load64 m' (p + 8 * PX 1 vb)"
      using e by (simp add: pte1_def t1)
    also have "\<dots> = load64 (memset m p 0 PGSIZE) (p + 8 * PX 1 vb)"
      unfolding m'_def using apt al
      by (intro load_store_slot) (auto simp: PX_less)
    also have "\<dots> = 0"
      by (simp add: load_memset_page_same PX_less)
    finally show ?thesis .
  qed
  show "load64 m' (slot0 m pt vb) = load64 m (slot0 m pt vb)" if h: "has0 m pt vb"
  proof -
    from h have tin: "tab0 m pt vb \<in> tables0 m pt" by (auto simp: tables0_def)
    with ok p0 have d: "tab0 m pt vb \<noteq> pt" "tab0 m pt vb \<noteq> p"
      by (auto simp: pt_ok_def)
    have "load64 m' (slot0 m pt vb) = load64 (memset m p 0 PGSIZE) (tab0 m pt vb + 8 * PX 0 vb)"
      unfolding m'_def slot0_def using apt d
      by (intro load_store_slot) (auto simp: PX_less tab0_def)
    also have "\<dots> = load64 m (tab0 m pt vb + 8 * PX 0 vb)"
      using al d by (intro load_memset_page_other) (simp_all add: PX_less tab0_def)
    finally show ?thesis by (simp add: slot0_def)
  qed
qed

lemma alloc1_struct:
  fixes p :: uint64
  assumes ok: "pt_ok m pt" and fr: "free_ok m pt (p # ps)" and nh: "\<not> has1 m pt va"
  defines "m' \<equiv> store64 (memset m p 0 PGSIZE) (pt + 8 * PX 2 va) (PA2PTE p OR PTE_V)"
  shows "has1 m' pt vb \<longleftrightarrow> PX 2 vb = PX 2 va \<or> has1 m pt vb"
    and "tab1 m' pt vb = (if PX 2 vb = PX 2 va then p else tab1 m pt vb)"
    and "has0 m' pt vb = has0 m pt vb"
    and "has0 m pt vb \<Longrightarrow> tab0 m' pt vb = tab0 m pt vb"
    and "has0 m pt vb \<Longrightarrow> slot0 m' pt vb = slot0 m pt vb"
    and "leaf m' pt vb = leaf m pt vb"
proof -
  note a = alloc1 [OF ok fr nh, where vb=vb, folded m'_def]
  from fr have al: "page_aligned p" by (simp add: free_ok_def)
  show h1: "has1 m' pt vb \<longleftrightarrow> PX 2 vb = PX 2 va \<or> has1 m pt vb"
  proof (cases "PX 2 vb = PX 2 va")
    case True
    then have "pte2 m' pt vb = PA2PTE p OR PTE_V" using a(1) by simp
    then have "has1 m' pt vb" unfolding has1_def by (simp only: link_valid not_False_eq_True)
    with True show ?thesis by simp
  next
    case False
    then show ?thesis using a(1) by (simp add: has1_def)
  qed
  show "tab1 m' pt vb = (if PX 2 vb = PX 2 va then p else tab1 m pt vb)"
    using a(1) by (simp add: tab1_def PTE2PA_link al)
  have old: "PX 2 vb \<noteq> PX 2 va" if "has1 m pt vb"
    using that nh has1_PX by blast
  show h0: "has0 m' pt vb = has0 m pt vb"
  proof (cases "PX 2 vb = PX 2 va")
    case True
    then have "\<not> has1 m pt vb" using old by blast
    with True show ?thesis using a(3) by (simp add: has0_def)
  next
    case False
    then show ?thesis using a(2) h1 by (auto simp: has0_def)
  qed
  show t0: "has0 m pt vb \<Longrightarrow> tab0 m' pt vb = tab0 m pt vb"
    using a(2) by (simp add: tab0_def has0_def)
  show s0: "has0 m pt vb \<Longrightarrow> slot0 m' pt vb = slot0 m pt vb"
    using t0 by (simp add: slot0_def)
  show "leaf m' pt vb = leaf m pt vb"
    using h0 s0 a(4) by (simp add: leaf_def)
qed

lemma alloc1_tables:
  fixes p :: uint64
  assumes ok: "pt_ok m pt" and fr: "free_ok m pt (p # ps)" and nh: "\<not> has1 m pt va"
  defines "m' \<equiv> store64 (memset m p 0 PGSIZE) (pt + 8 * PX 2 va) (PA2PTE p OR PTE_V)"
  shows "tables1 m' pt = insert p (tables1 m pt)" and "tables0 m' pt = tables0 m pt"
proof -
  note s = alloc1_struct [OF ok fr nh, folded m'_def]
  have old: "PX 2 vb \<noteq> PX 2 va" if "has1 m pt vb" for vb
    using that nh has1_PX by blast
  show "tables1 m' pt = insert p (tables1 m pt)"
  proof (rule set_eqI)
    fix x
    show "x \<in> tables1 m' pt \<longleftrightarrow> x \<in> insert p (tables1 m pt)"
    proof
      assume "x \<in> tables1 m' pt"
      then obtain vb where "x = tab1 m' pt vb" "has1 m' pt vb"
        by (auto simp: tables1_def)
      then show "x \<in> insert p (tables1 m pt)"
        using s(1,2) [of vb] by (auto simp: tables1_def split: if_splits)
    next
      assume "x \<in> insert p (tables1 m pt)"
      then show "x \<in> tables1 m' pt"
      proof
        assume "x = p"
        then show ?thesis
          using s(1,2) [of va] by (auto simp: tables1_def intro!: exI [of _ va])
      next
        assume "x \<in> tables1 m pt"
        then obtain vb where "x = tab1 m pt vb" "has1 m pt vb"
          by (auto simp: tables1_def)
        then show ?thesis
          using s(1,2) [of vb] old [of vb] by (auto simp: tables1_def intro!: exI [of _ vb])
      qed
    qed
  qed
  show "tables0 m' pt = tables0 m pt"
    using s(3,4) by (auto simp: tables0_def) metis+
qed

lemma alloc1_ok:
  fixes p :: uint64
  assumes ok: "pt_ok m pt" and fr: "free_ok m pt (p # ps)" and nh: "\<not> has1 m pt va"
  defines "m' \<equiv> store64 (memset m p 0 PGSIZE) (pt + 8 * PX 2 va) (PA2PTE p OR PTE_V)"
  shows "pt_ok m' pt" and "free_ok m' pt ps"
  unfolding pt_ok_def free_ok_def m'_def alloc1_tables [OF ok fr nh]
  using ok fr by (auto simp: pt_ok_def free_ok_def)

lemma alloc0:
  fixes q :: uint64
  assumes ok: "pt_ok m pt" and fr: "free_ok m pt (q # qs)"
    and h1: "has1 m pt va" and nh: "\<not> has0 m pt va"
  defines "m' \<equiv> store64 (memset m q 0 PGSIZE) (tab1 m pt va + 8 * PX 1 va) (PA2PTE q OR PTE_V)"
  shows alloc0_pte2: "pte2 m' pt vb = pte2 m pt vb"
    and alloc0_pte1: "has1 m pt vb \<Longrightarrow> pte1 m' pt vb =
          (if tab1 m pt vb = tab1 m pt va \<and> PX 1 vb = PX 1 va then PA2PTE q OR PTE_V
           else pte1 m pt vb)"
    and alloc0_slot: "has0 m pt vb \<Longrightarrow> load64 m' (slot0 m pt vb) = load64 m (slot0 m pt vb)"
    and alloc0_new: "load64 m' (q + 8 * PX 0 vb) = 0"
proof -
  from fr ok have al: "page_aligned q" "q \<noteq> pt" and apt: "page_aligned pt"
    and q1: "q \<notin> tables1 m pt" and q0: "q \<notin> tables0 m pt"
    by (auto simp: free_ok_def pt_ok_def)
  from h1 have ta: "tab1 m pt va \<in> tables1 m pt" by (auto simp: tables1_def)
  with ok q1 have da: "tab1 m pt va \<noteq> pt" "tab1 m pt va \<noteq> q"
    by (auto simp: pt_ok_def)
  have at: "page_aligned (tab1 m pt va)" by (simp add: tab1_def)
  show p2: "pte2 m' pt vb = pte2 m pt vb"
  proof -
    have "pte2 m' pt vb = load64 (memset m q 0 PGSIZE) (pt + 8 * PX 2 vb)"
      unfolding pte2_def m'_def using apt at da
      by (intro load_store_slot) (simp_all add: PX_less)
    also have "\<dots> = pte2 m pt vb"
      unfolding pte2_def using apt al
      by (intro load_memset_page_other) (simp_all add: PX_less)
    finally show ?thesis .
  qed
  show "pte1 m' pt vb = (if tab1 m pt vb = tab1 m pt va \<and> PX 1 vb = PX 1 va
          then PA2PTE q OR PTE_V else pte1 m pt vb)" if h: "has1 m pt vb"
  proof -
    have t1: "tab1 m' pt vb = tab1 m pt vb" by (simp add: tab1_def p2)
    from h have "tab1 m pt vb \<in> tables1 m pt" by (auto simp: tables1_def)
    with q1 have dq: "tab1 m pt vb \<noteq> q" by auto
    show ?thesis
    proof (cases "tab1 m pt vb = tab1 m pt va \<and> PX 1 vb = PX 1 va")
      case True
      have "pte1 m' pt vb = load64 m' (tab1 m pt va + 8 * PX 1 va)"
        unfolding pte1_def t1 using True by simp
      also have "\<dots> = PA2PTE q OR PTE_V"
        unfolding m'_def by (rule load_store_same)
      finally show ?thesis using True by simp
    next
      case False
      have "pte1 m' pt vb = load64 (memset m q 0 PGSIZE) (tab1 m pt vb + 8 * PX 1 vb)"
        unfolding pte1_def t1 unfolding m'_def using at False
        by (intro load_store_slot) (auto simp: PX_less tab1_def)
      also have "\<dots> = pte1 m pt vb"
        unfolding pte1_def using al dq
        by (intro load_memset_page_other) (simp_all add: PX_less tab1_def)
      finally show ?thesis using False by auto
    qed
  qed
  show "load64 m' (slot0 m pt vb) = load64 m (slot0 m pt vb)" if h: "has0 m pt vb"
  proof -
    from h have tin: "tab0 m pt vb \<in> tables0 m pt" by (auto simp: tables0_def)
    with ok q0 ta have d: "tab0 m pt vb \<noteq> tab1 m pt va" "tab0 m pt vb \<noteq> q"
      by (auto simp: pt_ok_def)
    have "load64 m' (slot0 m pt vb) = load64 (memset m q 0 PGSIZE) (tab0 m pt vb + 8 * PX 0 vb)"
      unfolding m'_def slot0_def using at d
      by (intro load_store_slot) (auto simp: PX_less tab0_def)
    also have "\<dots> = load64 m (tab0 m pt vb + 8 * PX 0 vb)"
      using al d by (intro load_memset_page_other) (simp_all add: PX_less tab0_def)
    finally show ?thesis by (simp add: slot0_def)
  qed
  show "load64 m' (q + 8 * PX 0 vb) = 0"
  proof -
    have "load64 m' (q + 8 * PX 0 vb) = load64 (memset m q 0 PGSIZE) (q + 8 * PX 0 vb)"
      unfolding m'_def using at al da
      by (intro load_store_slot) (auto simp: PX_less)
    also have "\<dots> = 0"
      by (simp add: load_memset_page_same PX_less)
    finally show ?thesis .
  qed
qed

lemma alloc0_struct:
  fixes q :: uint64
  assumes ok: "pt_ok m pt" and fr: "free_ok m pt (q # qs)"
    and h1: "has1 m pt va" and nh: "\<not> has0 m pt va"
  defines "m' \<equiv> store64 (memset m q 0 PGSIZE) (tab1 m pt va + 8 * PX 1 va) (PA2PTE q OR PTE_V)"
  shows "has1 m' pt vb = has1 m pt vb"
    and "tab1 m' pt vb = tab1 m pt vb"
    and "has0 m' pt vb \<longleftrightarrow> has0 m pt vb \<or>
           (has1 m pt vb \<and> tab1 m pt vb = tab1 m pt va \<and> PX 1 vb = PX 1 va)"
    and "has0 m pt vb \<Longrightarrow> tab0 m' pt vb = tab0 m pt vb"
    and "has0 m pt vb \<Longrightarrow> slot0 m' pt vb = slot0 m pt vb"
    and "has1 m pt vb \<Longrightarrow> tab1 m pt vb = tab1 m pt va \<Longrightarrow> PX 1 vb = PX 1 va \<Longrightarrow>
           tab0 m' pt vb = q"
    and "leaf m' pt vb = leaf m pt vb"
proof -
  note a = alloc0 [OF ok fr h1 nh, where vb=vb, folded m'_def]
  from fr have al: "page_aligned q" by (simp add: free_ok_def)
  from h1 nh have inv: "pte1 m pt va AND PTE_V = 0" by (simp add: has0_def)
  have same: "pte1 m pt vb = pte1 m pt va" if "tab1 m pt vb = tab1 m pt va" "PX 1 vb = PX 1 va"
    using that by (simp add: pte1_def)
  have old: "\<not> (tab1 m pt vb = tab1 m pt va \<and> PX 1 vb = PX 1 va)" if "has0 m pt vb"
    using that same inv by (auto simp: has0_def)
  show g1: "has1 m' pt vb = has1 m pt vb" by (simp add: has1_def a(1))
  show "tab1 m' pt vb = tab1 m pt vb" by (simp add: tab1_def a(1))
  show g0: "has0 m' pt vb \<longleftrightarrow> has0 m pt vb \<or>
           (has1 m pt vb \<and> tab1 m pt vb = tab1 m pt va \<and> PX 1 vb = PX 1 va)"
  proof (cases "has1 m pt vb")
    case False
    then show ?thesis by (simp add: has0_def g1)
  next
    case True
    show ?thesis
    proof (cases "tab1 m pt vb = tab1 m pt va \<and> PX 1 vb = PX 1 va")
      case True
      with \<open>has1 m pt vb\<close> have "pte1 m' pt vb = PA2PTE q OR PTE_V" using a(2) by simp
      then have "pte1 m' pt vb AND PTE_V \<noteq> 0" by (simp only: link_valid not_False_eq_True)
      with True \<open>has1 m pt vb\<close> show ?thesis by (simp add: has0_def g1)
    next
      case False
      with True show ?thesis using a(2) by (auto simp: has0_def g1)
    qed
  qed
  show t0: "has0 m pt vb \<Longrightarrow> tab0 m' pt vb = tab0 m pt vb"
    using a(2) old by (auto simp: tab0_def has0_def)
  show s0: "has0 m pt vb \<Longrightarrow> slot0 m' pt vb = slot0 m pt vb"
    using t0 by (simp add: slot0_def)
  show tn: "has1 m pt vb \<Longrightarrow> tab1 m pt vb = tab1 m pt va \<Longrightarrow> PX 1 vb = PX 1 va \<Longrightarrow>
           tab0 m' pt vb = q"
    using a(2) by (simp add: tab0_def PTE2PA_link al)
  show "leaf m' pt vb = leaf m pt vb"
  proof (cases "has0 m pt vb")
    case True
    then show ?thesis using g0 s0 a(3) by (simp add: leaf_def)
  next
    case False
    show ?thesis
    proof (cases "has0 m' pt vb")
      case False
      with \<open>\<not> has0 m pt vb\<close> show ?thesis by (simp add: leaf_def)
    next
      case True
      with False g0 have n: "has1 m pt vb" "tab1 m pt vb = tab1 m pt va" "PX 1 vb = PX 1 va"
        by auto
      then have "slot0 m' pt vb = q + 8 * PX 0 vb"
        using tn by (simp add: slot0_def)
      with True False show ?thesis using a(4) by (simp add: leaf_def)
    qed
  qed
qed

lemma alloc0_tables:
  fixes q :: uint64
  assumes ok: "pt_ok m pt" and fr: "free_ok m pt (q # qs)"
    and h1: "has1 m pt va" and nh: "\<not> has0 m pt va"
  defines "m' \<equiv> store64 (memset m q 0 PGSIZE) (tab1 m pt va + 8 * PX 1 va) (PA2PTE q OR PTE_V)"
  shows "tables1 m' pt = tables1 m pt" and "tables0 m' pt = insert q (tables0 m pt)"
proof -
  note s = alloc0_struct [OF ok fr h1 nh, folded m'_def]
  show "tables1 m' pt = tables1 m pt"
    using s(1,2) by (simp add: tables1_def)
  show "tables0 m' pt = insert q (tables0 m pt)"
  proof (rule set_eqI)
    fix x
    show "x \<in> tables0 m' pt \<longleftrightarrow> x \<in> insert q (tables0 m pt)"
    proof
      assume "x \<in> tables0 m' pt"
      then obtain vb where x: "x = tab0 m' pt vb" "has0 m' pt vb"
        by (auto simp: tables0_def)
      show "x \<in> insert q (tables0 m pt)"
      proof (cases "has0 m pt vb")
        case True
        with x show ?thesis using s(4) [of vb] by (auto simp: tables0_def)
      next
        case False
        with x show ?thesis using s(3) [of vb] s(6) [of vb] by auto
      qed
    next
      assume "x \<in> insert q (tables0 m pt)"
      then show "x \<in> tables0 m' pt"
      proof
        assume "x = q"
        then show ?thesis
          using s(3) [of va] s(6) [of va] h1 by (auto simp: tables0_def intro!: exI [of _ va])
      next
        assume "x \<in> tables0 m pt"
        then obtain vb where "x = tab0 m pt vb" "has0 m pt vb"
          by (auto simp: tables0_def)
        then show ?thesis
          using s(3) [of vb] s(4) [of vb] by (auto simp: tables0_def intro!: exI [of _ vb])
      qed
    qed
  qed
qed

lemma alloc0_ok:
  fixes q :: uint64
  assumes ok: "pt_ok m pt" and fr: "free_ok m pt (q # qs)"
    and h1: "has1 m pt va" and nh: "\<not> has0 m pt va"
  defines "m' \<equiv> store64 (memset m q 0 PGSIZE) (tab1 m pt va + 8 * PX 1 va) (PA2PTE q OR PTE_V)"
  shows "pt_ok m' pt" and "free_ok m' pt qs"
  unfolding pt_ok_def free_ok_def m'_def alloc0_tables [OF ok fr h1 nh]
  using ok fr by (auto simp: pt_ok_def free_ok_def)

lemma walk_post_refl:
  "pt_ok (physmem s) pt \<Longrightarrow> free_ok (physmem s) pt (freelist s) \<Longrightarrow>
     slot \<noteq> 0 \<longrightarrow> has0 (physmem s) pt va \<and> slot0 (physmem s) pt va = slot \<Longrightarrow>
     walk_post s pt va slot s"
  by (simp add: walk_post_def)

lemma walk_post_trans:
  assumes "walk_post s pt va 0 s1" "walk_post s1 pt va slot s2"
  shows "walk_post s pt va slot s2"
proof -
  from assms(1) obtain u1 where u1: "freelist s = u1 @ freelist s1"
    "set u1 \<subseteq> tables1 (physmem s1) pt \<union> tables0 (physmem s1) pt"
    unfolding walk_post_def by blast
  from assms(2) obtain u2 where u2: "freelist s1 = u2 @ freelist s2"
    "set u2 \<subseteq> tables1 (physmem s2) pt \<union> tables0 (physmem s2) pt"
    unfolding walk_post_def by blast
  note u = u1 u2
  from assms have sub: "tables1 (physmem s1) pt \<subseteq> tables1 (physmem s2) pt"
    "tables0 (physmem s1) pt \<subseteq> tables0 (physmem s2) pt"
    by (auto simp: walk_post_def)
  have "freelist s = (u1 @ u2) @ freelist s2 \<and>
      set (u1 @ u2) \<subseteq> tables1 (physmem s2) pt \<union> tables0 (physmem s2) pt"
    using u sub by auto
  then have ex: "\<exists>used. freelist s = used @ freelist s2 \<and>
      set used \<subseteq> tables1 (physmem s2) pt \<union> tables0 (physmem s2) pt"
    by blast
  from assms have rest: "pt_ok (physmem s2) pt" "free_ok (physmem s2) pt (freelist s2)"
    "\<forall>vb. leaf (physmem s2) pt vb = leaf (physmem s) pt vb"
    "\<forall>vb. has0 (physmem s) pt vb \<longrightarrow>
        has0 (physmem s2) pt vb \<and> slot0 (physmem s2) pt vb = slot0 (physmem s) pt vb"
    "slot \<noteq> 0 \<longrightarrow> has0 (physmem s2) pt va \<and> slot0 (physmem s2) pt va = slot"
    "tables1 (physmem s) pt \<subseteq> tables1 (physmem s2) pt"
    "tables0 (physmem s) pt \<subseteq> tables0 (physmem s2) pt"
    unfolding walk_post_def by auto
  show ?thesis
    unfolding walk_post_def using rest ex by (intro conjI)
qed

lemma walk_level_Suc:
  "walk_level s t va True (Suc l) =
     (if load64 (physmem s) (t + 8 * PX (Suc l) va) AND PTE_V \<noteq> 0
      then walk_level s (PTE2PA (load64 (physmem s) (t + 8 * PX (Suc l) va))) va True l
      else (case freelist s of
              [] \<Rightarrow> (0, s)
            | p # ps \<Rightarrow>
                if p = 0 then (0, s\<lparr>physmem := memset (physmem s) p 0 PGSIZE, freelist := ps\<rparr>)
                else walk_level
                       (s\<lparr>freelist := ps,
                          physmem := store64 (memset (physmem s) p 0 PGSIZE)
                                       (t + 8 * PX (Suc l) va) (PA2PTE p OR PTE_V)\<rparr>) p va True l))"
  by (simp add: kalloc_def Let_def memset_idem split: list.splits)

text \<open>The second level of the walk, started in a level-1 table of the page table.\<close>

lemma walk_level1:
  assumes ok: "pt_ok (physmem s) pt" and fr: "free_ok (physmem s) pt (freelist s)"
    and h1: "has1 (physmem s) pt va"
    and r: "walk_level s (tab1 (physmem s) pt va) va True (Suc 0) = (slot, s')"
  shows "walk_post s pt va slot s'"
proof (cases "has0 (physmem s) pt va")
  case True
  with r h1 have "slot = slot0 (physmem s) pt va" "s' = s"
    by (auto simp: walk_level_Suc has0_def pte1_def PX_Suc slot0_def tab0_def
          simp del: One_nat_def walk_level.simps(2))
  with True ok fr show ?thesis
    by (simp add: walk_post_refl)
next
  case False
  with h1 have inv: "load64 (physmem s) (tab1 (physmem s) pt va + 8 * PX 1 va) AND PTE_V = 0"
    by (simp add: has0_def pte1_def)
  show ?thesis
  proof (cases "freelist s")
    case Nil
    with r inv have "slot = 0" "s' = s"
      by (auto simp: walk_level_Suc PX_Suc simp del: One_nat_def walk_level.simps(2))
    with ok fr show ?thesis
      by (simp add: walk_post_refl)
  next
    case (Cons q qs)
    with fr have q: "q \<noteq> 0" "page_aligned q" by (auto simp: free_ok_def)
    define m' where "m' = store64 (memset (physmem s) q 0 PGSIZE)
        (tab1 (physmem s) pt va + 8 * PX 1 va) (PA2PTE q OR PTE_V)"
    from r inv Cons q have res: "slot = q + 8 * PX 0 va"
      "s' = s\<lparr>freelist := qs, physmem := m'\<rparr>"
      by (auto simp: walk_level_Suc PX_Suc m'_def simp del: One_nat_def walk_level.simps(2))
    from fr Cons have fr': "free_ok (physmem s) pt (q # qs)" by simp
    note st = alloc0_struct [OF ok fr' h1 False, folded m'_def]
    note tb = alloc0_tables [OF ok fr' h1 False, folded m'_def]
    note k = alloc0_ok [OF ok fr' h1 False, folded m'_def]
    have "has0 m' pt va \<and> slot0 m' pt va = slot"
      using st(3) [of va] st(6) [of va] h1 res by (simp add: slot0_def)
    moreover have "freelist s = [q] @ freelist s' \<and> set [q] \<subseteq> tables1 m' pt \<union> tables0 m' pt"
      using Cons res tb by simp
    then have "\<exists>used. freelist s = used @ freelist s' \<and>
        set used \<subseteq> tables1 (physmem s') pt \<union> tables0 (physmem s') pt"
      using res by (intro exI [of _ "[q]"]) simp
    ultimately show ?thesis
      unfolding walk_post_def using res k st(3,5,7) tb by auto
  qed
qed

lemma walk_alloc:
  assumes ok: "pt_ok (physmem s) pt" and fr: "free_ok (physmem s) pt (freelist s)"
    and r: "walk_level s pt va True 2 = (slot, s')"
  shows "walk_post s pt va slot s'"
proof (cases "has1 (physmem s) pt va")
  case True
  with r have "walk_level s (tab1 (physmem s) pt va) va True (Suc 0) = (slot, s')"
    by (simp add: walk_level_two walk_level_Suc [where l="Suc 0"] has1_def pte2_def tab1_def PX_Suc
          del: One_nat_def walk_level.simps(2))
  with ok fr True show ?thesis by (rule walk_level1)
next
  case False
  then have inv: "load64 (physmem s) (pt + 8 * PX 2 va) AND PTE_V = 0"
    by (simp add: has1_def pte2_def)
  show ?thesis
  proof (cases "freelist s")
    case Nil
    with r inv have "slot = 0" "s' = s"
      by (auto simp: walk_level_two walk_level_Suc [where l="Suc 0"] PX_Suc
            simp del: One_nat_def walk_level.simps(2))
    with ok fr show ?thesis
      by (simp add: walk_post_refl)
  next
    case (Cons p ps)
    with fr have p: "p \<noteq> 0" "page_aligned p" by (auto simp: free_ok_def)
    define m1 where "m1 = store64 (memset (physmem s) p 0 PGSIZE)
        (pt + 8 * PX 2 va) (PA2PTE p OR PTE_V)"
    define s1 where "s1 = s\<lparr>freelist := ps, physmem := m1\<rparr>"
    from fr Cons have fr': "free_ok (physmem s) pt (p # ps)" by simp
    note st = alloc1_struct [OF ok fr' False, folded m1_def]
    note tb = alloc1_tables [OF ok fr' False, folded m1_def]
    note k = alloc1_ok [OF ok fr' False, folded m1_def]
    have t1: "tab1 (physmem s1) pt va = p" "has1 (physmem s1) pt va"
      using st(1,2) [of va] by (simp_all add: s1_def)
    from r inv Cons p have "walk_level s1 p va True (Suc 0) = (slot, s')"
      by (simp add: walk_level_two walk_level_Suc [where l="Suc 0"] PX_Suc m1_def s1_def
            del: One_nat_def walk_level.simps(2))
    with t1 have r1: "walk_level s1 (tab1 (physmem s1) pt va) va True (Suc 0) = (slot, s')"
      by simp
    have ok1: "pt_ok (physmem s1) pt" "free_ok (physmem s1) pt (freelist s1)"
      using k by (simp_all add: s1_def)
    from ok1 t1(2) r1 have post1: "walk_post s1 pt va slot s'"
      by (rule walk_level1)
    have "freelist s = [p] @ freelist s1 \<and>
        set [p] \<subseteq> tables1 (physmem s1) pt \<union> tables0 (physmem s1) pt"
      using Cons tb by (simp add: s1_def)
    then have "\<exists>used. freelist s = used @ freelist s1 \<and>
        set used \<subseteq> tables1 (physmem s1) pt \<union> tables0 (physmem s1) pt"
      by blast
    then have post0: "walk_post s pt va 0 s1"
      unfolding walk_post_def using ok1 st(3,5,6) tb by (auto simp: s1_def)
    from post0 post1 show ?thesis by (rule walk_post_trans)
  qed
qed

lemma grows_refl: "grows m m pt"
  by (simp add: grows_def)

lemma grows_trans: "grows m m1 pt \<Longrightarrow> grows m1 m2 pt \<Longrightarrow> grows m m2 pt"
  unfolding grows_def by metis

lemma valid_0 [simp]: "\<not> valid 0"
  by (simp add: valid_def)

lemma valid_leaf_has0: "valid (leaf m pt va) \<Longrightarrow> has0 m pt va"
  by (auto simp: leaf_def split: if_splits)

lemma walk_Inr:
  "walk s pt va alloc = Inr (slot, s1) \<longleftrightarrow> va < MAXVA \<and> walk_level s pt va alloc 2 = (slot, s1)"
  by (auto simp: walk_def)

lemma mappages_step:
  fixes v :: uint64
  assumes ok: "pt_ok (physmem s) pt" and fr: "free_ok (physmem s) pt (freelist s)"
    and w: "walk s pt a True = Inr (slot, s1)" and nz: "slot \<noteq> 0"
    and inv: "load64 (physmem s1) slot AND PTE_V = 0"
  defines "m2 \<equiv> store64 (physmem s1) slot v"
  shows "pt_ok m2 pt" and "free_ok m2 pt (freelist s1)"
    and "has0 m2 pt a" and "slot0 m2 pt a = slot" and "leaf m2 pt a = v"
    and "has0 (physmem s) pt vb \<Longrightarrow> has0 m2 pt vb \<and> slot0 m2 pt vb = slot0 (physmem s) pt vb"
    and "leaf m2 pt vb = (if has0 m2 pt vb \<and> slot0 m2 pt vb = slot then v
                         else leaf (physmem s) pt vb)"
    and "has0 m2 pt vb \<Longrightarrow> slot0 m2 pt vb = slot \<Longrightarrow> \<not> valid (leaf (physmem s) pt vb)"
    and "\<exists>used. freelist s = used @ freelist s1 \<and> set used \<subseteq> tables1 m2 pt \<union> tables0 m2 pt"
    and "tables1 (physmem s) pt \<subseteq> tables1 m2 pt" and "tables0 (physmem s) pt \<subseteq> tables0 m2 pt"
proof -
  from w have "walk_level s pt a True 2 = (slot, s1)" by (simp add: walk_Inr)
  with ok fr have "walk_post s pt a slot s1" by (rule walk_alloc)
  then have ok1: "pt_ok (physmem s1) pt" and fr1: "free_ok (physmem s1) pt (freelist s1)"
    and lf: "\<And>vb. leaf (physmem s1) pt vb = leaf (physmem s) pt vb"
    and mono: "\<And>vb. has0 (physmem s) pt vb \<Longrightarrow>
        has0 (physmem s1) pt vb \<and> slot0 (physmem s1) pt vb = slot0 (physmem s) pt vb"
    and h: "has0 (physmem s1) pt a" and sl: "slot0 (physmem s1) pt a = slot"
    and us: "\<exists>used. freelist s = used @ freelist s1 \<and>
        set used \<subseteq> tables1 (physmem s1) pt \<union> tables0 (physmem s1) pt"
    and t1: "tables1 (physmem s) pt \<subseteq> tables1 (physmem s1) pt"
    and t0: "tables0 (physmem s) pt \<subseteq> tables0 (physmem s1) pt"
    using nz unfolding walk_post_def by auto
  have m2: "m2 = store64 (physmem s1) (slot0 (physmem s1) pt a) v"
    by (simp add: m2_def sl)
  note st = leaf_store_struct [OF ok1 h, where v=v, folded m2]
  note tb = leaf_store_tables [OF ok1 h, where v=v, folded m2]
  note lv = leaf_store_leaf [OF ok1 h, where v=v, folded m2]
  show "pt_ok m2 pt" unfolding m2 using ok1 h by (rule leaf_store_ok)
  show "free_ok m2 pt (freelist s1)" unfolding m2 using ok1 h fr1 by (rule leaf_store_free_ok)
  show "has0 m2 pt a" using st(3) h by simp
  show "slot0 m2 pt a = slot" using st(5) h sl by simp
  show "leaf m2 pt a = v" using lv [of a] h by simp
  show "has0 m2 pt vb \<and> slot0 m2 pt vb = slot0 (physmem s) pt vb" if "has0 (physmem s) pt vb"
    using mono [OF that] st(3) [of vb] st(5) [of vb] by simp
  show "leaf m2 pt vb = (if has0 m2 pt vb \<and> slot0 m2 pt vb = slot then v
                         else leaf (physmem s) pt vb)"
    using lv [of vb] st(3) [of vb] st(5) [of vb] sl lf [of vb] by auto
  show "\<not> valid (leaf (physmem s) pt vb)" if "has0 m2 pt vb" "slot0 m2 pt vb = slot"
  proof -
    from that st(3) [of vb] have h1: "has0 (physmem s1) pt vb" by simp
    with st(5) [of vb] that have "slot0 (physmem s1) pt vb = slot" by simp
    with h1 have "leaf (physmem s1) pt vb = load64 (physmem s1) slot"
      by (simp add: leaf_def)
    with inv lf [of vb] show ?thesis by (simp add: valid_def)
  qed
  show "\<exists>used. freelist s = used @ freelist s1 \<and> set used \<subseteq> tables1 m2 pt \<union> tables0 m2 pt"
    using us tb by simp
  show "tables1 (physmem s) pt \<subseteq> tables1 m2 pt" using t1 tb by simp
  show "tables0 (physmem s) pt \<subseteq> tables0 m2 pt" using t0 tb by simp
qed

lemma mappages_step_grows:
  fixes v :: uint64
  assumes ok: "pt_ok (physmem s) pt" and fr: "free_ok (physmem s) pt (freelist s)"
    and w: "walk s pt a True = Inr (slot, s1)" and nz: "slot \<noteq> 0"
    and inv: "load64 (physmem s1) slot AND PTE_V = 0"
  shows "grows (physmem s) (store64 (physmem s1) slot v) pt"
proof -
  note st = mappages_step [OF ok fr w nz inv, where v=v]
  let ?m2 = "store64 (physmem s1) slot v"
  have "leaf ?m2 pt vb = leaf (physmem s) pt vb" if vl: "valid (leaf (physmem s) pt vb)" for vb
    using st(7) [of vb] st(8) [of vb] vl by auto
  with st(6) show ?thesis
    unfolding grows_def by blast
qed

lemma mappages_loop_Inr0:
  assumes "mappages_loop s pt a last_a pa perm = Inr (0, s')"
  shows "\<exists>slot s1. walk s pt a True = Inr (slot, s1) \<and> slot \<noteq> 0 \<and>
           load64 (physmem s1) slot AND PTE_V = 0 \<and>
           (if a = last_a
            then s' = s1\<lparr>physmem := store64 (physmem s1) slot (PA2PTE pa OR scast perm OR PTE_V)\<rparr>
            else mappages_loop
                   (s1\<lparr>physmem := store64 (physmem s1) slot (PA2PTE pa OR scast perm OR PTE_V)\<rparr>)
                   pt (a + PGSIZE) last_a (pa + PGSIZE) perm = Inr (0, s'))"
proof (cases "walk s pt a True")
  case (Inl e)
  with assms show ?thesis
    by (subst (asm) mappages_loop.simps) (simp del: mappages_loop.simps)
next
  case (Inr x)
  obtain slot s1 where x: "x = (slot, s1)" by (cases x)
  from assms show ?thesis
    by (subst (asm) mappages_loop.simps)
       (simp add: Inr x Let_def del: mappages_loop.simps split: if_splits)
qed

lemma valid_or [simp]: "valid (x OR PTE_V)"
proof -
  have "(x OR PTE_V) AND PTE_V = PTE_V"
    by (rule bit_word_eqI) (auto simp: bit_simps)
  then show ?thesis
    by (simp add: valid_def PTE_V_def)
qed

lemma valid_entry: "valid (entry pa perm)"
  unfolding entry_def or.assoc [symmetric] by (rule valid_or)

lemma of_nat_Suc_page: "a + PGSIZE + of_nat k * PGSIZE = a + of_nat (Suc k) * PGSIZE"
  by (simp add: algebra_simps)

lemma mappages_loop_spec:
  assumes "mappages_loop s pt a last_a pa perm = Inr (0, s')"
    and "pt_ok (physmem s) pt" and "free_ok (physmem s) pt (freelist s)"
  shows "pt_ok (physmem s') pt \<and> free_ok (physmem s') pt (freelist s') \<and>
         grows (physmem s) (physmem s') pt \<and> last_a < MAXVA \<and>
         (\<forall>k. unat a + k * 4096 \<le> unat last_a \<longrightarrow>
            slot0 (physmem s') pt (a + of_nat k * PGSIZE) \<noteq> 0 \<and>
            leaf (physmem s') pt (a + of_nat k * PGSIZE) = entry (pa + of_nat k * PGSIZE) perm)"
  using assms
proof (induction s pt a last_a pa perm arbitrary: s' rule: mappages_loop.induct)
  case (1 s pt a last_a pa perm)
  define v where "v = PA2PTE pa OR scast perm OR PTE_V"
  from mappages_loop_Inr0 [OF "1.prems"(1)] obtain slot s1 where
    w: "walk s pt a True = Inr (slot, s1)" and nz: "slot \<noteq> 0"
    and inv: "load64 (physmem s1) slot AND PTE_V = 0"
    and rest: "if a = last_a then s' = s1\<lparr>physmem := store64 (physmem s1) slot v\<rparr>
            else mappages_loop (s1\<lparr>physmem := store64 (physmem s1) slot v\<rparr>)
                   pt (a + PGSIZE) last_a (pa + PGSIZE) perm = Inr (0, s')"
    unfolding v_def by blast
  define s2 where "s2 = s1\<lparr>physmem := store64 (physmem s1) slot v\<rparr>"
  note st = mappages_step [OF "1.prems"(2,3) w nz inv, where v=v]
  note gr = mappages_step_grows [OF "1.prems"(2,3) w nz inv, where v=v]
  from w have lt: "a < MAXVA" by (simp add: walk_Inr)
  have ok2: "pt_ok (physmem s2) pt" "free_ok (physmem s2) pt (freelist s2)"
    using st(1,2) by (simp_all add: s2_def)
  have here: "slot0 (physmem s2) pt a \<noteq> 0" "leaf (physmem s2) pt a = entry pa perm"
    "has0 (physmem s2) pt a"
    using st(3,4,5) nz by (simp_all add: s2_def entry_def v_def)
  have vl: "valid (entry pa perm)"
    by (rule valid_entry)
  show ?case
  proof (cases "a = last_a")
    case True
    with rest have s': "s' = s2" by (simp add: s2_def)
    have k0: "k = 0" if "unat a + k * 4096 \<le> unat last_a" for k
      using that True by simp
    have "slot0 (physmem s2) pt (a + of_nat k * PGSIZE) \<noteq> 0 \<and>
          leaf (physmem s2) pt (a + of_nat k * PGSIZE) = entry (pa + of_nat k * PGSIZE) perm"
      if "unat a + k * 4096 \<le> unat last_a" for k
      using k0 [OF that] here by simp
    moreover have "grows (physmem s) (physmem s2) pt"
      using gr by (simp add: s2_def)
    moreover have "last_a < MAXVA"
      using lt True by simp
    ultimately show ?thesis
      unfolding s' using ok2 by blast
  next
    case False
    with rest have r: "mappages_loop s2 pt (a + PGSIZE) last_a (pa + PGSIZE) perm = Inr (0, s')"
      by (simp add: s2_def)
    have ih: "pt_ok (physmem s') pt \<and> free_ok (physmem s') pt (freelist s') \<and>
         grows (physmem s2) (physmem s') pt \<and> last_a < MAXVA \<and>
         (\<forall>k. unat (a + PGSIZE) + k * 4096 \<le> unat last_a \<longrightarrow>
            slot0 (physmem s') pt (a + PGSIZE + of_nat k * PGSIZE) \<noteq> 0 \<and>
            leaf (physmem s') pt (a + PGSIZE + of_nat k * PGSIZE) =
              entry (pa + PGSIZE + of_nat k * PGSIZE) perm)"
      using "1.IH" [OF w refl nz _ s2_def [unfolded v_def] False r] inv ok2
      by simp
    have "grows (physmem s) (physmem s2) pt"
      using gr by (simp add: s2_def)
    moreover from ih have g2: "grows (physmem s2) (physmem s') pt"
      by (elim conjE)
    ultimately have g: "grows (physmem s) (physmem s') pt"
      by (rule grows_trans)
    have step: "unat (a + PGSIZE) = unat a + 4096"
      using lt by (rule unat_add_PGSIZE)
    have "slot0 (physmem s') pt (a + of_nat k * PGSIZE) \<noteq> 0 \<and>
          leaf (physmem s') pt (a + of_nat k * PGSIZE) = entry (pa + of_nat k * PGSIZE) perm"
      if k: "unat a + k * 4096 \<le> unat last_a" for k
    proof (cases k)
      case 0
      from here vl have "valid (leaf (physmem s2) pt a)" by simp
      with g2 here show ?thesis
        unfolding grows_def 0 by simp
    next
      case (Suc j)
      with k step have "unat (a + PGSIZE) + j * 4096 \<le> unat last_a" by simp
      with ih show ?thesis
        unfolding Suc of_nat_Suc_page [symmetric] by blast
    qed
    with ih g show ?thesis by blast
  qed
qed

lemma page_0 [simp]: "page va 0 = va"
  by (simp add: page_def)

lemma page_Suc: "page (va + PGSIZE) k = page va (Suc k)"
  by (simp add: page_def algebra_simps)

lemma touched_0 [simp]: "\<not> touched m pt va 0 vb"
  by (simp add: touched_def)

lemma frames_0 [simp]: "frames m pt va 0 = {}"
  by (simp add: frames_def)

lemma ex_less_Suc_shift: "(\<exists>k<Suc n. P k) \<longleftrightarrow> P 0 \<or> (\<exists>k<n. P (Suc k))"
  by (metis less_Suc_eq_0_disj)

lemma touched_has0: "touched m pt va n vb \<Longrightarrow> has0 m pt vb"
  by (simp add: touched_def)

lemma touched_Suc:
  "touched m pt va (Suc n) vb \<longleftrightarrow>
     has0 m pt vb \<and>
     (has0 m pt va \<and> slot0 m pt vb = slot0 m pt va \<or> touched m pt (va + PGSIZE) n vb)"
  by (auto simp: touched_def ex_less_Suc_shift page_Suc)

lemma frames_iff:
  "x \<in> frames m pt va n \<longleftrightarrow>
     (\<exists>k<n. x = PTE2PA (leaf m pt (page va k)) \<and> valid (leaf m pt (page va k)) \<and>
        PTE2PA (leaf m pt (page va k)) \<noteq> 0)"
  unfolding frames_def by blast

lemma frames_Suc:
  "frames m pt va (Suc n) =
     (if valid (leaf m pt va) \<and> PTE2PA (leaf m pt va) \<noteq> 0 then {PTE2PA (leaf m pt va)} else {})
     \<union> frames m pt (va + PGSIZE) n"
proof (rule set_eqI)
  fix x
  show "x \<in> frames m pt va (Suc n) \<longleftrightarrow>
        x \<in> (if valid (leaf m pt va) \<and> PTE2PA (leaf m pt va) \<noteq> 0
              then {PTE2PA (leaf m pt va)} else {}) \<union> frames m pt (va + PGSIZE) n"
    unfolding Un_iff frames_iff ex_less_Suc_shift page_Suc page_0
    by auto
qed

text \<open>One step of the loop on a page whose entry is invalid.\<close>

lemma unmapped_skip:
  assumes h: "has0 (physmem s) pt va" and inv: "\<not> valid (leaf (physmem s) pt va)"
    and rest: "unmapped s pt (va + PGSIZE) n do_free s'"
  shows "unmapped s pt va (Suc n) do_free s'"
proof -
  have same: "leaf (physmem s) pt vb = leaf (physmem s) pt va"
    if "has0 (physmem s) pt vb" "slot0 (physmem s) pt vb = slot0 (physmem s) pt va" for vb
    using that h by (simp add: leaf_def)
  have t: "(touched (physmem s) pt va (Suc n) vb \<and> valid (leaf (physmem s) pt vb)) =
        (touched (physmem s) pt (va + PGSIZE) n vb \<and> valid (leaf (physmem s) pt vb))" for vb
    using same [of vb] inv touched_has0 [of "physmem s" pt "va + PGSIZE" n vb]
    by (auto simp: touched_Suc)
  have f: "frames (physmem s) pt va (Suc n) = frames (physmem s) pt (va + PGSIZE) n"
    using inv by (simp add: frames_Suc)
  show ?thesis
    unfolding unmapped_def t f using rest [unfolded unmapped_def] .
qed

text \<open>One step of the loop on a page whose entry is valid.\<close>

lemma touched_store:
  assumes ok: "pt_ok m pt" and h: "has0 m pt va"
  shows "touched (store64 m (slot0 m pt va) v) pt a n vb = touched m pt a n vb"
proof -
  note st = leaf_store_struct [OF ok h, where v=v]
  have "(has0 (store64 m (slot0 m pt va) v) pt x \<and>
         slot0 (store64 m (slot0 m pt va) v) pt vb = slot0 (store64 m (slot0 m pt va) v) pt x) =
        (has0 m pt x \<and> slot0 m pt vb = slot0 m pt x)" if "has0 m pt vb" for x
    using that st(3) [of x] st(5) [of x] st(5) [of vb] by auto
  then show ?thesis
    unfolding touched_def using st(3) [of vb] by auto
qed

lemma unmapped_clear:
  assumes ok: "pt_ok (physmem s) pt" and h: "has0 (physmem s) pt va"
    and vl: "valid (leaf (physmem s) pt va)"
    and s2: "s2 = (if do_free \<and> PTE2PA (leaf (physmem s) pt va) \<noteq> 0
                   then kfree s (PTE2PA (leaf (physmem s) pt va)) else s)"
    and s3: "s3 = s2\<lparr>physmem := store64 (physmem s2) (slot0 (physmem s) pt va) 0\<rparr>"
    and rest: "unmapped s3 pt (va + PGSIZE) n do_free s'"
  shows "unmapped s pt va (Suc n) do_free s'"
proof -
  define m where "m = physmem s"
  define m3 where "m3 = store64 m (slot0 m pt va) 0"
  define pa where "pa = PTE2PA (leaf m pt va)"
  have p3: "physmem s3 = m3"
    by (simp add: s3 s2 m3_def m_def kfree_def)
  have f3: "freelist s3 = (if do_free \<and> pa \<noteq> 0 then pa # freelist s else freelist s)"
    by (simp add: s3 s2 pa_def m_def kfree_def)
  note ok' = ok [folded m_def] and h' = h [folded m_def] and vl' = vl [folded m_def]
  note st = leaf_store_struct [OF ok' h', where v=0, folded m3_def]
  note lv = leaf_store_leaf [OF ok' h', where v=0, folded m3_def]
  note tc = touched_store [OF ok' h', where v=0, folded m3_def]
  from rest have r1: "\<And>vb. has0 (physmem s') pt vb = has0 m3 pt vb"
    and r2: "\<And>vb. has0 m3 pt vb \<Longrightarrow> slot0 (physmem s') pt vb = slot0 m3 pt vb"
    and r3: "\<And>vb. leaf (physmem s') pt vb =
        (if touched m3 pt (va + PGSIZE) n vb \<and> valid (leaf m3 pt vb) then 0 else leaf m3 pt vb)"
    and r4: "\<exists>fs. freelist s' = fs @ freelist s3 \<and>
        set fs = (if do_free then frames m3 pt (va + PGSIZE) n else {})"
    unfolding unmapped_def p3 by auto
  have same: "leaf m pt vb = leaf m pt va" if "has0 m pt vb" "slot0 m pt vb = slot0 m pt va" for vb
    using that h' by (simp add: leaf_def)
  have g1: "has0 (physmem s') pt vb = has0 m pt vb" for vb
    using r1 [of vb] st(3) [of vb] by simp
  have g2: "slot0 (physmem s') pt vb = slot0 m pt vb" if "has0 m pt vb" for vb
    using r2 [of vb] st(3) [of vb] st(5) [of vb] that by simp
  have g3: "leaf (physmem s') pt vb =
        (if touched m pt va (Suc n) vb \<and> valid (leaf m pt vb) then 0 else leaf m pt vb)" for vb
  proof (cases "has0 m pt vb \<and> slot0 m pt vb = slot0 m pt va")
    case True
    then have "leaf m3 pt vb = 0" using lv [of vb] by simp
    then have "leaf (physmem s') pt vb = 0" using r3 [of vb] by simp
    moreover have "touched m pt va (Suc n) vb" using True h' by (simp add: touched_Suc)
    moreover have "valid (leaf m pt vb)" using same True vl' by simp
    ultimately show ?thesis by simp
  next
    case False
    then have "leaf m3 pt vb = leaf m pt vb" using lv [of vb] by auto
    moreover have "touched m pt va (Suc n) vb = touched m pt (va + PGSIZE) n vb"
      using False touched_has0 [of m pt "va + PGSIZE" n vb] by (auto simp: touched_Suc)
    ultimately show ?thesis using r3 [of vb] tc [of "va + PGSIZE" n vb] by simp
  qed
  have fr: "frames m pt va (Suc n) = (if pa \<noteq> 0 then {pa} else {}) \<union> frames m3 pt (va + PGSIZE) n"
  proof (rule set_eqI)
    fix x
    let ?Q = "\<lambda>mm k. x = PTE2PA (leaf mm pt (page (va + PGSIZE) k)) \<and>
                valid (leaf mm pt (page (va + PGSIZE) k)) \<and>
                PTE2PA (leaf mm pt (page (va + PGSIZE) k)) \<noteq> 0"
    have a: "?Q m k" if "?Q m3 k" for k
    proof -
      from that have "valid (leaf m3 pt (page (va + PGSIZE) k))" by simp
      then have "leaf m3 pt (page (va + PGSIZE) k) = leaf m pt (page (va + PGSIZE) k)"
        using lv [of "page (va + PGSIZE) k"] by (auto split: if_splits)
      with that show ?thesis by simp
    qed
    have b: "?Q m3 k \<or> (pa \<noteq> 0 \<and> x = pa)" if q: "?Q m k" for k
    proof (cases "has0 m pt (page (va + PGSIZE) k) \<and>
                  slot0 m pt (page (va + PGSIZE) k) = slot0 m pt va")
      case True
      then have "leaf m pt (page (va + PGSIZE) k) = leaf m pt va" using same by simp
      with q show ?thesis by (simp add: pa_def)
    next
      case False
      then have "leaf m3 pt (page (va + PGSIZE) k) = leaf m pt (page (va + PGSIZE) k)"
        using lv [of "page (va + PGSIZE) k"] by auto
      with q show ?thesis by simp
    qed
    have "x \<in> frames m pt va (Suc n) \<longleftrightarrow> (pa \<noteq> 0 \<and> x = pa) \<or> (\<exists>k<n. ?Q m k)"
      unfolding frames_Suc Un_iff frames_iff using vl' by (auto simp: pa_def)
    also have "\<dots> \<longleftrightarrow> (pa \<noteq> 0 \<and> x = pa) \<or> (\<exists>k<n. ?Q m3 k)"
      using a b by blast
    also have "\<dots> \<longleftrightarrow> x \<in> (if pa \<noteq> 0 then {pa} else {}) \<union> frames m3 pt (va + PGSIZE) n"
      unfolding Un_iff frames_iff by auto
    finally show "x \<in> frames m pt va (Suc n) \<longleftrightarrow>
          x \<in> (if pa \<noteq> 0 then {pa} else {}) \<union> frames m3 pt (va + PGSIZE) n" .
  qed
  have g4: "\<exists>fs. freelist s' = fs @ freelist s \<and>
        set fs = (if do_free then frames m pt va (Suc n) else {})"
  proof -
    from r4 obtain fs where fs: "freelist s' = fs @ freelist s3"
      "set fs = (if do_free then frames m3 pt (va + PGSIZE) n else {})" by blast
    show ?thesis
    proof (cases "do_free \<and> pa \<noteq> 0")
      case True
      with fs f3 fr have "freelist s' = (fs @ [pa]) @ freelist s \<and>
          set (fs @ [pa]) = (if do_free then frames m pt va (Suc n) else {})"
        by auto
      then show ?thesis by blast
    next
      case False
      with fs f3 fr have "freelist s' = fs @ freelist s \<and>
          set fs = (if do_free then frames m pt va (Suc n) else {})"
        by auto
      then show ?thesis by blast
    qed
  qed
  show ?thesis
    unfolding unmapped_def m_def [symmetric]
    using g1 g2 g3 g4 by blast
qed

lemma uvmunmap_loop_step:
  assumes lt: "a < bound" "a < MAXVA"
    and h: "has0 (physmem s) pt a" and nz: "slot0 (physmem s) pt a \<noteq> 0"
  shows "uvmunmap_loop s pt a bound do_free =
     (if \<not> valid (leaf (physmem s) pt a) then uvmunmap_loop s pt (a + PGSIZE) bound do_free
      else if PTE_FLAGS (leaf (physmem s) pt a) = PTE_V then Inl (Panic ''uvmunmap: not a leaf'')
      else uvmunmap_loop
             ((if do_free \<and> PTE2PA (leaf (physmem s) pt a) \<noteq> 0
               then kfree s (PTE2PA (leaf (physmem s) pt a)) else s)
              \<lparr>physmem := store64 (physmem s) (slot0 (physmem s) pt a) 0\<rparr>)
             pt (a + PGSIZE) bound do_free)"
proof -
  have w: "walk s pt a False = Inr (slot0 (physmem s) pt a, s)"
    using lt(2) h by (simp add: walk_False)
  have l: "leaf (physmem s) pt a = load64 (physmem s) (slot0 (physmem s) pt a)"
    using h by (simp add: leaf_def)
  show ?thesis
    by (subst uvmunmap_loop.simps)
       (simp add: w l [symmetric] lt nz valid_def Let_def kfree_def del: uvmunmap_loop.simps)
qed

lemma PTE_FLAGS_0: "PTE_FLAGS 0 \<noteq> PTE_V"
  by (simp add: PTE_FLAGS_def PTE_V_def)

lemma uvmunmap_loop_spec:
  assumes ok: "pt_ok (physmem s) pt"
    and bd: "unat bound = unat a + n * 4096" "unat bound \<le> 2 ^ 38"
    and pres: "\<forall>k<n. has0 (physmem s) pt (page a k) \<and> slot0 (physmem s) pt (page a k) \<noteq> 0 \<and>
                 PTE_FLAGS (leaf (physmem s) pt (page a k)) \<noteq> PTE_V"
  shows "\<exists>s'. uvmunmap_loop s pt a bound do_free = Inr s' \<and> pt_ok (physmem s') pt \<and>
           unmapped s pt a n do_free s' \<and>
           tables1 (physmem s') pt = tables1 (physmem s) pt \<and>
           tables0 (physmem s') pt = tables0 (physmem s) pt"
  using assms
proof (induction n arbitrary: s a)
  case 0
  then have "\<not> a < bound" by (simp add: word_less_nat_alt)
  then have "uvmunmap_loop s pt a bound do_free = Inr s"
    by (subst uvmunmap_loop.simps) (simp del: uvmunmap_loop.simps)
  moreover have "unmapped s pt a 0 do_free s"
    by (simp add: unmapped_def)
  ultimately show ?case using "0.prems"(1) by simp
next
  case (Suc n)
  let ?m = "physmem s"
  from Suc.prems(2,3) have lt: "a < bound" "a < MAXVA"
    by (simp_all add: word_less_nat_alt MAXVA_def)
  from Suc.prems(4) have h: "has0 ?m pt a" and nz: "slot0 ?m pt a \<noteq> 0"
    and fl: "PTE_FLAGS (leaf ?m pt a) \<noteq> PTE_V"
    by (auto dest: spec [of _ 0])
  have step: "unat (a + PGSIZE) = unat a + 4096"
    using lt(2) by (rule unat_add_PGSIZE)
  with Suc.prems(2) have bd': "unat bound = unat (a + PGSIZE) + n * 4096" by simp
  have pres': "has0 ?m pt (page (a + PGSIZE) k) \<and> slot0 ?m pt (page (a + PGSIZE) k) \<noteq> 0 \<and>
                 PTE_FLAGS (leaf ?m pt (page (a + PGSIZE) k)) \<noteq> PTE_V" if "k < n" for k
    using Suc.prems(4) that unfolding page_Suc by simp
  show ?case
  proof (cases "valid (leaf ?m pt a)")
    case False
    from Suc.IH [OF Suc.prems(1) bd' Suc.prems(3)] pres'
    obtain s' where s': "uvmunmap_loop s pt (a + PGSIZE) bound do_free = Inr s'"
      "pt_ok (physmem s') pt" "unmapped s pt (a + PGSIZE) n do_free s'"
      "tables1 (physmem s') pt = tables1 ?m pt" "tables0 (physmem s') pt = tables0 ?m pt"
      by blast
    have "uvmunmap_loop s pt a bound do_free = Inr s'"
      using uvmunmap_loop_step [OF lt h nz, of do_free] False s'(1) by simp
    moreover have "unmapped s pt a (Suc n) do_free s'"
      using h False s'(3) by (rule unmapped_skip)
    ultimately show ?thesis using s' by blast
  next
    case True
    define s2 where "s2 = (if do_free \<and> PTE2PA (leaf ?m pt a) \<noteq> 0
                   then kfree s (PTE2PA (leaf ?m pt a)) else s)"
    define s3 where "s3 = s2\<lparr>physmem := store64 (physmem s2) (slot0 ?m pt a) 0\<rparr>"
    have p2: "physmem s2 = ?m" by (simp add: s2_def kfree_def)
    have p3: "physmem s3 = store64 ?m (slot0 ?m pt a) 0" by (simp add: s3_def p2)
    note st = leaf_store_struct [OF Suc.prems(1) h, where v=0, folded p3]
    note lv = leaf_store_leaf [OF Suc.prems(1) h, where v=0, folded p3]
    note tb = leaf_store_tables [OF Suc.prems(1) h, where v=0, folded p3]
    have ok3: "pt_ok (physmem s3) pt"
      unfolding p3 using Suc.prems(1) h by (rule leaf_store_ok)
    have pres3: "\<forall>k<n. has0 (physmem s3) pt (page (a + PGSIZE) k) \<and>
                 slot0 (physmem s3) pt (page (a + PGSIZE) k) \<noteq> 0 \<and>
                 PTE_FLAGS (leaf (physmem s3) pt (page (a + PGSIZE) k)) \<noteq> PTE_V"
    proof (intro allI impI)
      fix k assume "k < n"
      note p = pres' [OF this]
      let ?x = "page (a + PGSIZE) k"
      have "has0 (physmem s3) pt ?x" using p st(3) [of ?x] by simp
      moreover have "slot0 (physmem s3) pt ?x \<noteq> 0" using p st(5) [of ?x] by simp
      moreover have "PTE_FLAGS (leaf (physmem s3) pt ?x) \<noteq> PTE_V"
        using p lv [of ?x] PTE_FLAGS_0 by (auto split: if_splits)
      ultimately show "has0 (physmem s3) pt ?x \<and> slot0 (physmem s3) pt ?x \<noteq> 0 \<and>
                 PTE_FLAGS (leaf (physmem s3) pt ?x) \<noteq> PTE_V" by blast
    qed
    from Suc.IH [OF ok3 bd' Suc.prems(3) pres3]
    obtain s' where s': "uvmunmap_loop s3 pt (a + PGSIZE) bound do_free = Inr s'"
      "pt_ok (physmem s') pt" "unmapped s3 pt (a + PGSIZE) n do_free s'"
      "tables1 (physmem s') pt = tables1 (physmem s3) pt"
      "tables0 (physmem s') pt = tables0 (physmem s3) pt"
      by blast
    have "s2\<lparr>physmem := store64 ?m (slot0 ?m pt a) 0\<rparr> = s3"
      by (simp add: s3_def p2)
    then have "uvmunmap_loop s pt a bound do_free = Inr s'"
      using uvmunmap_loop_step [OF lt h nz, of do_free] True fl s'(1)
      unfolding s2_def by simp
    moreover have "unmapped s pt a (Suc n) do_free s'"
      using Suc.prems(1) h True s2_def s3_def s'(3) by (rule unmapped_clear)
    ultimately show ?thesis using s' tb by auto
  qed
qed

lemma bit_PX: "bit (PX l va) j \<longleftrightarrow> j < 9 \<and> bit va (12 + 9 * l + j)"
proof -
  have "PX l va = drop_bit (12 + 9 * l) va AND mask 9"
    by (simp add: PX_def mask_eq_exp_minus_1)
  then show ?thesis
    by (auto simp: bit_simps dest: bit_imp_le_length)
qed

lemma same_indices_same_page:
  assumes lt: "va < MAXVA" "vb < MAXVA"
    and px: "PX 2 va = PX 2 vb" "PX 1 va = PX 1 vb" "PX 0 va = PX 0 vb"
  shows "PGROUNDDOWN va = PGROUNDDOWN vb"
proof (rule bit_word_eqI)
  fix n assume "n < LENGTH(64)"
  have hi: "\<not> bit x n" if "x < MAXVA" "38 \<le> n" for x :: uint64
    using that word64_less_2p_bits [of 38 x] by (auto simp: MAXVA_2p)
  have mid: "bit va n = bit vb n" if n: "12 \<le> n" "n < 39"
  proof -
    define l where "l = (n - 12) div 9"
    define j where "j = (n - 12) mod 9"
    have e: "n = 12 + 9 * l + j" and j: "j < 9" and l: "l < 3"
      using n by (auto simp: l_def j_def)
    from l have "l = 0 \<or> l = 1 \<or> l = 2" by auto
    with px have "PX l va = PX l vb" by auto
    then have "bit (PX l va) j = bit (PX l vb) j" by simp
    with j show ?thesis unfolding bit_PX e by simp
  qed
  show "bit (PGROUNDDOWN va) n = bit (PGROUNDDOWN vb) n"
  proof (cases "12 \<le> n \<and> n < 39")
    case True
    with mid show ?thesis by (simp add: bit_PGROUNDDOWN)
  next
    case False
    then have "n < 12 \<or> 38 \<le> n" by auto
    then show ?thesis
      using hi [OF lt(1)] hi [OF lt(2)] by (auto simp: bit_PGROUNDDOWN)
  qed
qed

lemma tree_slots:
  assumes tr: "pt_tree m pt" and h: "has0 m pt va" "has0 m pt vb"
    and sl: "slot0 m pt va = slot0 m pt vb"
  shows "PX 2 va = PX 2 vb \<and> PX 1 va = PX 1 vb \<and> PX 0 va = PX 0 vb"
proof -
  from sl have "tab0 m pt va = tab0 m pt vb" "PX 0 va = PX 0 vb"
    by (simp_all add: slot_eq_iff)
  with tr h show ?thesis
    unfolding pt_tree_def by blast
qed

lemma page_less_MAXVA:
  assumes "unat va + n * 4096 \<le> 2 ^ 38" "k < n"
  shows "unat (page va k) = unat va + k * 4096" and "page va k < MAXVA"
proof -
  from assms have b: "unat va + k * 4096 < 2 ^ 38" by simp
  have "unat (of_nat k * PGSIZE :: uint64) = k * 4096"
  proof -
    have k: "unat (of_nat k :: uint64) = k"
      using b by (simp add: unat_of_nat)
    have "unat (of_nat k * PGSIZE :: uint64) = unat (of_nat k :: uint64) * unat PGSIZE"
      by (rule unat_mult_lem [THEN iffD1]) (use b k in \<open>simp add: PGSIZE_def\<close>)
    with k show ?thesis by (simp add: PGSIZE_def)
  qed
  moreover have "unat (va + of_nat k * PGSIZE) = unat va + unat (of_nat k * PGSIZE :: uint64)"
    by (rule unat_add_lem [THEN iffD1]) (use b calculation in simp)
  ultimately show u: "unat (page va k) = unat va + k * 4096"
    by (simp add: page_def)
  with b show "page va k < MAXVA"
    by (simp add: word_less_nat_alt MAXVA_def)
qed

lemma page_aligned_page:
  assumes "page_aligned va" "unat va + n * 4096 \<le> 2 ^ 38" "k < n"
  shows "page_aligned (page va k)"
  using assms(1) unfolding page_aligned_dvd page_less_MAXVA(1) [OF assms(2,3)] by simp

lemma tree_untouched:
  assumes tr: "pt_tree m pt" and al: "page_aligned va" and bd: "unat va + n * 4096 \<le> 2 ^ 38"
    and vb: "vb < MAXVA" and out: "\<forall>k<n. PGROUNDDOWN vb \<noteq> page va k"
  shows "\<not> touched m pt va n vb"
proof
  assume "touched m pt va n vb"
  then obtain k where k: "k < n" "has0 m pt vb" "has0 m pt (page va k)"
    "slot0 m pt vb = slot0 m pt (page va k)"
    by (auto simp: touched_def)
  from tree_slots [OF tr k(2,3,4)] vb page_less_MAXVA(2) [OF bd k(1)]
  have "PGROUNDDOWN vb = PGROUNDDOWN (page va k)"
    by (intro same_indices_same_page) simp_all
  also have "\<dots> = page va k"
    using page_aligned_page [OF al bd k(1)] by (simp add: PGROUNDDOWN_aligned)
  finally show False using out k(1) by simp
qed

subsection \<open>The fault handler and the file offset\<close>

lemma fault_state_sel: "physmem fault_state = fault_mem" "freelist fault_state = [0x80004000]"
  by (simp_all add: fault_state_def)

lemma fault_walk: "walk fault_state 0x80001000 0x5000 False = Inr (0x80003028, fault_state)"
  by (simp add: walk_def MAXVA_def walk_level_two PX_def fault_state_sel fault_mem_def load_simps
      PTE_V_def PA2PTE_def PTE2PA_def)

text \<open>
  C1. The claim has the fault handler read the file at \<open>faultAddr - region.base +
  region.fileOffset\<close>. The code computes \<open>addr - vma_low\<close> and never adds \<open>fileoff\<close>: for a
  fault at \<open>0x5000\<close> in the region at \<open>0x4000\<close> that maps the file from offset 8192 on, the
  handler succeeds and its one call of \<open>readi\<close> reads 4096 bytes at offset 4096 into the new
  frame, where the claim says 12288. \<open>munmap\<close> does add \<open>fileoff\<close> when it writes the same
  pages back.
\<close>

theorem mmapapage_ignores_fileoff:
  "(case mmapapage lab_config fault_files fault_proc fault_state 0x5000 of
      Inl e \<Rightarrow> None
    | Inr (r, s', calls) \<Rightarrow> Some (r, calls))
   = Some (0, [(0x80004000, 4096, 4096)])"
  by (simp add: mmapapage_def fault_walk PGROUNDDOWN_def PGSIZE_def
      fault_state_sel fault_mem_def fault_proc_def fault_files_def lab_config_def load_simps
      PTE_V_def PTE_U_def PA2PTE_def PTE2PA_def kalloc_def readi_def Let_def)


subsection \<open>Duplicating an address space when no frame is left\<close>

lemma copy_state_sel: "physmem copy_state = copy_mem" "freelist copy_state = []"
  by (simp_all add: copy_state_def)

lemma copy_walk0: "walk copy_state 0x80001000 0 False = Inr (0x80003000, copy_state)"
  by (simp add: walk_def MAXVA_def walk_level_two PX_def copy_state_sel copy_mem_def load_simps
      PTE_V_def PA2PTE_def PTE2PA_def)

lemma copy_walk1: "walk copy_state 0x80001000 4096 False = Inr (0x80003008, copy_state)"
  by (simp add: walk_def MAXVA_def walk_level_two PX_def copy_state_sel copy_mem_def load_simps
      PTE_V_def PA2PTE_def PTE2PA_def)

lemma copy_walk_new: "walk copy_state 0x80005000 0 False = Inr (0, copy_state)"
  by (simp add: walk_def MAXVA_def walk_level_two PX_def copy_state_sel copy_mem_def load_simps
      PTE_V_def PA2PTE_def PTE2PA_def)

lemma copy_err: "uvmcopy_err copy_state 0x80005000 4096 = Inl (Panic ''uvmunmap: walk'')"
  by (simp add: uvmcopy_err_def uvmunmap_def PGSIZE_def copy_walk_new)


text \<open>
  C9. The claim has \<open>uvmcopy\<close> report failure on any failure, after taking back the pages
  it has copied, and the comment above the function says the same (returns -1 on
  failure). The code after \<open>err\<close> runs \<open>uvmunmap\<close> over every page below the failing one,
  also over the pages the loop has skipped because they are not present or carry the tag;
  for such a page the new table may have no level-0 table, and \<open>uvmunmap\<close> panics where its
  \<open>walk\<close> finds none. Here page 0 of the parent is not present, and the allocation for
  page 1 fails: the call panics instead of returning -1.
\<close>

theorem uvmcopy_unwind_panics:
  "uvmcopy lab_config copy_state 0x80001000 0x80005000 8192 = Inl (Panic ''uvmunmap: walk'')"
  by (simp add: uvmcopy_def copy_walk0 copy_walk1 copy_err copy_state_sel copy_mem_def load_simps
       PGSIZE_def PTE_V_def PTE_R_def PTE_W_def PTE_U_def PTE_FLAGS_def PA2PTE_def PTE2PA_def
       lab_config_def kalloc_def)


subsection \<open>The region after a partial unmap\<close>

lemma munmap_scan_found:
  assumes skip: "\<forall>u\<in>set before. vma_addr u = 0 \<or> addr < vma_addr u \<or> vma_addr u + vma_length u \<le> addr"
    and hit: "vma_addr v \<noteq> 0" "vma_addr v \<le> addr" "addr < vma_addr v + vma_length v"
  shows "munmap_scan cfg rs s pg addr low high n acc (before @ v # rest) =
         (case munmap_region cfg rs s pg low high n v of
            None \<Rightarrow> None
          | Some (Inl e) \<Rightarrow> Some (Inl e)
          | Some (Inr (ret, v', s1, calls, closed)) \<Rightarrow>
              Some (Inr (ret, acc @ before @ v' # rest, s1, calls, closed)))"
  using skip
proof (induction before arbitrary: acc)
  case Nil
  from hit have "\<not> addr < vma_addr v" "\<not> vma_addr v + vma_length v \<le> addr"
    by auto
  with hit show ?case
    by (simp add: Let_def split: option.splits sum.splits)
next
  case (Cons u us)
  then show ?case
    by (auto simp: Let_def split: option.splits sum.splits)
qed


text \<open>
  C2, as amended. \<open>munmap\<close> works on the first region of the table that contains \<open>addr\<close>.
  When the rounded range \<open>[low, high)\<close> starts at the region's base and ends before its
  end, the region's base and file offset are advanced by \<open>high - low\<close> and its length is
  shrunk by as much; when the range starts after the base and ends at the region's end,
  the length is shrunk by \<open>high - low\<close> and the base and the file offset stay as they are.
  Protection, flags and file handle are kept.
\<close>

theorem munmap_partial_overlap:
  assumes run: "munmap cfg rs p s addr len = Some (Inr (ret, vmas, s', calls, closed))"
    and tab: "p_vmatable p = before @ v # rest"
    and skip: "\<forall>u\<in>set before. vma_addr u = 0 \<or> addr < vma_addr u \<or> vma_addr u + vma_length u \<le> addr"
    and hit: "vma_addr v \<noteq> 0" "vma_addr v \<le> addr" "addr < vma_addr v + vma_length v"
  shows "\<exists>v'. vmas = before @ v' # rest \<and>
           vma_prot v' = vma_prot v \<and> vma_flags v' = vma_flags v \<and> vma_f v' = vma_f v \<and>
           (PGROUNDDOWN addr = vma_addr v \<and>
            PGROUNDUP (addr + scast len) < vma_addr v + vma_length v \<longrightarrow>
              vma_addr v' = PGROUNDUP (addr + scast len) \<and>
              vma_fileoff v' = vma_fileoff v + (PGROUNDUP (addr + scast len) - PGROUNDDOWN addr) \<and>
              vma_length v' = vma_length v - (PGROUNDUP (addr + scast len) - PGROUNDDOWN addr)) \<and>
           (vma_addr v < PGROUNDDOWN addr \<and>
            PGROUNDUP (addr + scast len) = vma_addr v + vma_length v \<longrightarrow>
              vma_addr v' = vma_addr v \<and>
              vma_fileoff v' = vma_fileoff v \<and>
              vma_length v' = vma_length v - (PGROUNDUP (addr + scast len) - PGROUNDDOWN addr))"
proof -
  define low where "low = PGROUNDDOWN addr"
  define high where "high = PGROUNDUP (addr + scast len)"
  obtain v' where v': "v' = fst (vma_after_unmap v low high)" by simp
  from run have vmas: "vmas = before @ v' # rest"
    unfolding munmap_def Let_def tab
    by (simp add: munmap_scan_found [OF skip hit] munmap_region_def v' low_def high_def
          split: option.splits sum.splits prod.splits if_splits)
  have keep: "vma_prot v' = vma_prot v \<and> vma_flags v' = vma_flags v \<and> vma_f v' = vma_f v"
    by (simp add: v' vma_after_unmap_def Let_def)
  have pre: "low = vma_addr v \<and> high < vma_addr v + vma_length v \<longrightarrow>
              vma_addr v' = high \<and> vma_fileoff v' = vma_fileoff v + (high - low) \<and>
              vma_length v' = vma_length v - (high - low)"
    by (auto simp: v' vma_after_unmap_def Let_def)
  have suf: "vma_addr v < low \<and> high = vma_addr v + vma_length v \<longrightarrow>
              vma_addr v' = vma_addr v \<and> vma_fileoff v' = vma_fileoff v \<and>
              vma_length v' = vma_length v - (high - low)"
    by (auto simp: v' vma_after_unmap_def Let_def)
  from vmas keep pre suf show ?thesis
    unfolding low_def high_def by blast
qed

lemma fault_walk4: "walk fault_state 0x80001000 0x4000 False = Inr (0x80003020, fault_state)"
  by (simp add: walk_def MAXVA_def walk_level_two PX_def fault_state_sel fault_mem_def load_simps
      PTE_V_def PA2PTE_def PTE2PA_def)

lemma fault_unmap5:
  "uvmunmap fault_state 0x80001000 0x5000 1 True =
     Inr (fault_state\<lparr>physmem := store64 fault_mem 0x80003028 0\<rparr>)"
  by (simp add: uvmunmap_def PGSIZE_def fault_walk fault_state_sel fault_mem_def load_simps
      PTE_V_def PTE_U_def PTE_FLAGS_def PTE2PA_def)

lemma fault_unmap4:
  "uvmunmap fault_state 0x80001000 0x4000 1 True =
     Inr (fault_state\<lparr>physmem := store64 fault_mem 0x80003020 0\<rparr>)"
  by (simp add: uvmunmap_def PGSIZE_def fault_walk4 fault_state_sel fault_mem_def load_simps
      PTE_V_def PTE_U_def PTE_FLAGS_def PTE2PA_def)


text \<open>
  The claim as stated fails where the end of the region is removed: unmapping the second
  page of the two-page region at \<open>0x4000\<close> leaves the base at \<open>0x4000\<close> and the file offset
  at 8192, where the claim has both advanced by 4096.
\<close>

theorem munmap_suffix_counterexample:
  "munmap lab_config [] fault_proc fault_state 0x5000 4096 =
     Some (Inr (0, [\<lparr>vma_addr = 0x4000, vma_length = 0x1000, vma_prot = 1, vma_flags = 1,
                      vma_fileoff = 8192, vma_f = 0\<rparr>],
                fault_state\<lparr>physmem := store64 fault_mem 0x80003028 0\<rparr>, [], []))"
  by (simp add: munmap_def munmap_region_def vma_after_unmap_def fault_proc_def lab_config_def
      PGROUNDDOWN_def PGROUNDUP_def PGSIZE_def fault_unmap5 Let_def)

lemma fault_munmap_prefix:
  "munmap lab_config [] fault_proc fault_state 0x4000 4096 =
     Some (Inr (0, [\<lparr>vma_addr = 0x5000, vma_length = 0x1000, vma_prot = 1, vma_flags = 1,
                      vma_fileoff = 12288, vma_f = 0\<rparr>],
                fault_state\<lparr>physmem := store64 fault_mem 0x80003020 0\<rparr>, [], []))"
  by (simp add: munmap_def munmap_region_def vma_after_unmap_def fault_proc_def lab_config_def
      PGROUNDDOWN_def PGROUNDUP_def PGSIZE_def fault_unmap4 Let_def)

theorem munmap_partial_overlap_witness:
  "munmap lab_config [] fault_proc fault_state 0x4000 4096 =
     Some (Inr (0, [\<lparr>vma_addr = 0x5000, vma_length = 0x1000, vma_prot = 1, vma_flags = 1,
                      vma_fileoff = 12288, vma_f = 0\<rparr>],
                fault_state\<lparr>physmem := store64 fault_mem 0x80003020 0\<rparr>, [], []))
   \<and> p_vmatable fault_proc = [] @ \<lparr>vma_addr = 0x4000, vma_length = 0x2000, vma_prot = 1,
          vma_flags = 1, vma_fileoff = 8192, vma_f = 0\<rparr> # []
   \<and> PGROUNDDOWN 0x4000 = (0x4000 :: uint64)
   \<and> PGROUNDUP (0x4000 + scast (4096 :: int32)) < (0x4000 + 0x2000 :: uint64)
   \<and> (\<exists>v'. [\<lparr>vma_addr = 0x5000, vma_length = 0x1000, vma_prot = 1, vma_flags = 1,
                vma_fileoff = 12288, vma_f = 0\<rparr>] = [v'] \<and>
             vma_addr v' = 0x5000 \<and> vma_fileoff v' = 8192 + (0x5000 - 0x4000) \<and>
             vma_length v' = 0x2000 - (0x5000 - 0x4000))"
proof -
  let ?v = "\<lparr>vma_addr = 0x4000, vma_length = 0x2000, vma_prot = 1,
          vma_flags = 1, vma_fileoff = 8192, vma_f = 0 :: nat\<rparr>"
  have tab: "p_vmatable fault_proc = [] @ ?v # []"
    by (simp add: fault_proc_def)
  have skip: "\<forall>u\<in>set []. vma_addr u = 0 \<or> (0x4000 :: uint64) < vma_addr u
                \<or> vma_addr u + vma_length u \<le> 0x4000"
    by simp
  have r: "PGROUNDDOWN 0x4000 = (0x4000 :: uint64)"
      "PGROUNDUP (0x4000 + scast (4096 :: int32)) = (0x5000 :: uint64)"
    by (simp_all add: PGROUNDDOWN_def PGROUNDUP_def PGSIZE_def)
  from munmap_partial_overlap [OF fault_munmap_prefix tab skip] r
  show ?thesis
    using fault_munmap_prefix tab by simp
qed



subsection \<open>The writeback loop of munmap\<close>

lemma writeback_spec:
  "writeback rs low n mx i off calls = Some (ret, out) \<Longrightarrow>
     \<exists>new. out = calls @ new \<and> chained off new \<and>
       (\<forall>c\<in>set new. wlength c \<le>s mx) \<and>
       (\<forall>c\<in>set (butlast new). wresult c \<noteq> 0 \<and> wresult c \<noteq> - 1) \<and>
       (ret = 0 \<or> ret = - 1) \<and>
       (ret = - 1 \<longleftrightarrow> new \<noteq> [] \<and> wresult (last new) = - 1)"
proof (induction rs arbitrary: i off calls)
  case Nil
  then show ?case by (simp split: if_splits)
next
  case (Cons r rs)
  show ?case
  proof (cases "i <s n")
    case False
    with Cons.prems show ?thesis by simp
  next
    case True
    define n1 where "n1 = (if mx <s n - i then mx else n - i)"
    define c where "c = (low + scast i, off, n1, r)"
    have n1: "n1 \<le>s mx"
      by (simp add: n1_def signed.not_less)
    show ?thesis
    proof (cases "r = 0 \<or> r = - 1")
      case True
      with \<open>i <s n\<close> Cons.prems have "out = calls @ [c]" and "ret = r"
        by (auto simp: Let_def c_def n1_def split: if_splits)
      with True n1 show ?thesis
        by (intro exI [of _ "[c]"]) (auto simp: c_def wlength_def wresult_def)
    next
      case False
      with \<open>i <s n\<close> Cons.prems have
        "writeback rs low n mx (i + r) (if 0 <s r then off + r else off) (calls @ [c]) = Some (ret, out)"
        by (simp add: Let_def c_def n1_def)
      from Cons.IH [OF this] obtain new where new: "out = (calls @ [c]) @ new"
        "chained (if 0 <s r then off + r else off) new"
        "\<forall>c\<in>set new. wlength c \<le>s mx"
        "\<forall>c\<in>set (butlast new). wresult c \<noteq> 0 \<and> wresult c \<noteq> - 1"
        "ret = 0 \<or> ret = - 1"
        "ret = - 1 \<longleftrightarrow> new \<noteq> [] \<and> wresult (last new) = - 1"
        by blast
      have "\<forall>c\<in>set (butlast (c # new)). wresult c \<noteq> 0 \<and> wresult c \<noteq> - 1"
        using new(4) False by (auto simp: c_def wresult_def)
      moreover have "ret = - 1 \<longleftrightarrow> c # new \<noteq> [] \<and> wresult (last (c # new)) = - 1"
        using new(5,6) False by (auto simp: c_def wresult_def)
      ultimately show ?thesis
        using new n1 by (intro exI [of _ "c # new"]) (auto simp: c_def wlength_def)
    qed
  qed
qed

lemma sint32_diff:
  "0 \<le> sint (i::int32) \<Longrightarrow> sint i < sint n \<Longrightarrow> sint (n - i) = sint n - sint i"
proof -
  assume a: "0 \<le> sint i" "sint i < sint n"
  have "sint n < 2 ^ 31" using sint_lt [of n] by simp
  with a have "- (2 ^ 31) \<le> sint n - sint i" "sint n - sint i < 2 ^ 31"
    by auto
  then show ?thesis
    by (simp add: sint_word_diff signed_take_bit_int_eq_self)
qed

lemma sint32_add:
  "0 \<le> sint (i::int32) \<Longrightarrow> 0 \<le> sint r \<Longrightarrow> sint r \<le> sint (n::int32) - sint i \<Longrightarrow>
     sint (i + r) = sint i + sint r"
proof -
  assume a: "0 \<le> sint i" "0 \<le> sint r" "sint r \<le> sint n - sint i"
  have "sint n < 2 ^ 31" using sint_lt [of n] by simp
  with a have "- (2 ^ 31) \<le> sint i + sint r" "sint i + sint r < 2 ^ 31"
    by auto
  then show ?thesis
    by (simp add: sint_word_add signed_take_bit_int_eq_self)
qed

lemma writeback_lengths:
  "writeback rs low n mx i off calls = Some (ret, calls @ new) \<Longrightarrow>
     0 \<le>s mx \<Longrightarrow> 0 \<le>s i \<Longrightarrow> \<forall>c\<in>set new. obeys c \<Longrightarrow>
     \<forall>c\<in>set new. 0 \<le>s wlength c"
proof (induction rs arbitrary: i off calls new)
  case Nil
  then show ?case by (simp split: if_splits)
next
  case (Cons r rs)
  show ?case
  proof (cases "i <s n")
    case False
    with Cons.prems show ?thesis by simp
  next
    case True
    define n1 where "n1 = (if mx <s n - i then mx else n - i)"
    define c where "c = (low + scast i, off, n1, r)"
    from True Cons.prems(3) have d: "sint (n - i) = sint n - sint i"
      by (simp add: sint32_diff word_sle_eq word_sless_alt)
    with True Cons.prems(2) have n1: "0 \<le>s n1" "sint n1 \<le> sint n - sint i"
      by (auto simp: n1_def word_sle_eq word_sless_alt)
    show ?thesis
    proof (cases "r = 0 \<or> r = - 1")
      case True
      with \<open>i <s n\<close> Cons.prems(1) have "new = [c]"
        by (auto simp: Let_def c_def n1_def split: if_splits)
      with n1 show ?thesis
        by (simp add: c_def wlength_def)
    next
      case False
      with \<open>i <s n\<close> Cons.prems(1) have run:
        "writeback rs low n mx (i + r) (if 0 <s r then off + r else off) (calls @ [c])
           = Some (ret, calls @ new)"
        by (simp add: Let_def c_def n1_def)
      from writeback_spec [OF run] obtain new' where new': "calls @ new = (calls @ [c]) @ new'"
        by blast
      then have new: "new = c # new'" by simp
      with Cons.prems(4) have "obeys c" by simp
      with False have r: "0 \<le> sint r" "sint r \<le> sint n1"
        by (auto simp: obeys_def c_def word_sle_eq)
      with n1 Cons.prems(3) have "sint (i + r) = sint i + sint r"
        by (intro sint32_add [of i r n]) (auto simp: word_sle_eq)
      with r Cons.prems(3) have i': "0 \<le>s i + r"
        by (simp add: word_sle_eq)
      from run new have "writeback rs low n mx (i + r) (if 0 <s r then off + r else off)
          (calls @ [c]) = Some (ret, (calls @ [c]) @ new')"
        by simp
      from Cons.IH [OF this Cons.prems(2) i'] Cons.prems(4) new
      have "\<forall>c\<in>set new'. 0 \<le>s wlength c"
        by simp
      with n1 new show ?thesis
        by (simp add: c_def wlength_def)
    qed
  qed
qed

lemma sint_nonneg_uint: "0 \<le> sint (a::int32) \<Longrightarrow> uint a = sint a"
proof -
  assume a: "0 \<le> sint a"
  have "sint a < 2 ^ 31" using sint_lt [of a] by simp
  then have "sint a < 2 ^ 32" by simp
  have "uint a = uint (word_of_int (sint a) :: int32)" by simp
  also have "\<dots> = take_bit 32 (sint a)" by (simp only: uint_word_of_int_eq) simp
  also have "\<dots> = sint a" using a \<open>sint a < 2 ^ 32\<close> by (simp add: take_bit_int_eq_self)
  finally show ?thesis .
qed

lemma sle_unat: "0 \<le>s (a::int32) \<Longrightarrow> a \<le>s b \<Longrightarrow> unat a \<le> unat b"
proof -
  assume a: "0 \<le>s a" "a \<le>s b"
  then have "0 \<le> sint a" "0 \<le> sint b" "sint a \<le> sint b"
    by (auto simp: word_sle_eq)
  then have "uint a \<le> uint b"
    by (simp add: sint_nonneg_uint)
  then show ?thesis
    by (simp add: word_le_nat_alt [symmetric] word_le_def)
qed

lemma munmap_calls:
  "munmap_scan cfg rs s pg addr low high n acc vs = Some (Inr (ret, vmas, s', calls, closed)) \<Longrightarrow>
     (calls = [] \<and> ret = 0) \<or>
     (\<exists>off. writeback rs low n (writeback_max cfg) 0 off [] = Some (ret, calls))"
proof (induction vs arbitrary: acc)
  case Nil
  then show ?case by simp
next
  case (Cons v vs)
  show ?case
  proof (cases "vma_addr v = 0 \<or> addr < vma_addr v \<or> vma_addr v + vma_length v \<le> addr")
    case True
    with Cons.prems have
      "munmap_scan cfg rs s pg addr low high n (acc @ [v]) vs = Some (Inr (ret, vmas, s', calls, closed))"
      by (auto simp: Let_def split: if_splits)
    then show ?thesis by (rule Cons.IH)
  next
    case False
    with Cons.prems show ?thesis
      by (auto simp: Let_def munmap_region_def
            split: option.splits sum.splits prod.splits if_splits)
  qed
qed

lemma writeback_max_lab: "writeback_max lab_config = 3072"
  by (simp add: writeback_max_def lab_config_def)

lemma wb_state_sel: "physmem wb_state = wb_mem" "freelist wb_state = []"
  by (simp_all add: wb_state_def)

lemma wb_unmap:
  "uvmunmap wb_state 0x80001000 0x4000 2 True = Inr wb_unmapped"
  apply (simp add: uvmunmap_def PGSIZE_def wb_state_sel wb_mem_def load_simps walk_level_two
      PX_def walk_def MAXVA_def kfree_def
      PTE_V_def PTE_U_def PTE_R_def PTE_W_def PTE_FLAGS_def PTE2PA_def PA2PTE_def)
  apply (simp add: wb_state_def wb_unmapped_def wb_mem_def PTE_V_def PTE_U_def PTE_R_def PTE_W_def PA2PTE_def)
  done

lemma wb_munmap_short:
  "munmap lab_config [3072, 0] wb_proc wb_state 0x4000 8192 =
     Some (Inr (0, [\<lparr>vma_addr = 0, vma_length = 0x2000, vma_prot = 3, vma_flags = 1,
                      vma_fileoff = 8192, vma_f = 0\<rparr>],
                wb_unmapped, [(0x4000, 8192, 3072, 3072), (0x4C00, 11264, 3072, 0)], [0]))"
  by (simp add: munmap_def munmap_region_def vma_after_unmap_def wb_proc_def writeback_max_lab
      PGROUNDDOWN_def PGROUNDUP_def wb_unmap Let_def word_sless_alt)
     (simp add: lab_config_def PGSIZE_def wb_unmap)

lemma wb_munmap_full:
  "munmap lab_config [3072, 3072, 2048] wb_proc wb_state 0x4000 8192 =
     Some (Inr (0, [\<lparr>vma_addr = 0, vma_length = 0x2000, vma_prot = 3, vma_flags = 1,
                      vma_fileoff = 8192, vma_f = 0\<rparr>],
                wb_unmapped,
                [(0x4000, 8192, 3072, 3072), (0x4C00, 11264, 3072, 3072),
                 (0x5800, 14336, 2048, 2048)], [0]))"
  by (simp add: munmap_def munmap_region_def vma_after_unmap_def wb_proc_def writeback_max_lab
      PGROUNDDOWN_def PGROUNDUP_def wb_unmap Let_def word_sless_alt)
     (simp add: lab_config_def PGSIZE_def wb_unmap)

text \<open>
  C8. Every call of \<open>writei\<close> that \<open>munmap\<close> makes asks for at most
  \<open>((MAXOPBLOCKS - 1 - 1 - 2) / 2) * BSIZE\<close> bytes, as the C \<open>int\<close> that \<open>n1\<close> is; each call
  starts at the offset the call before it has left, which is advanced by the result of a
  call that wrote something. When the bound is not negative and every result is one that
  \<open>writei\<close> can return, the length is not negative either, so that the bound also holds for
  the unsigned length that \<open>writei\<close> receives.
\<close>

theorem munmap_write_chunks:
  assumes run: "munmap cfg rs p s addr len = Some (Inr (ret, vmas, s', calls, closed))"
  shows "(\<forall>c\<in>set calls. wlength c \<le>s writeback_max cfg) \<and>
         (\<exists>off. chained off calls) \<and>
         (0 \<le>s writeback_max cfg \<and> (\<forall>c\<in>set calls. obeys c) \<longrightarrow>
            (\<forall>c\<in>set calls. unat (wlength c) \<le> unat (writeback_max cfg)))"
proof -
  from run have "(calls = [] \<and> ret = 0) \<or>
      (\<exists>off. writeback rs (PGROUNDDOWN addr)
                (ucast (PGROUNDUP (addr + scast len) - PGROUNDDOWN addr))
                (writeback_max cfg) 0 off [] = Some (ret, calls))"
    unfolding munmap_def Let_def by (rule munmap_calls)
  then show ?thesis
  proof
    assume "calls = [] \<and> ret = 0"
    then show ?thesis by simp
  next
    assume "\<exists>off. writeback rs (PGROUNDDOWN addr)
                (ucast (PGROUNDUP (addr + scast len) - PGROUNDDOWN addr))
                (writeback_max cfg) 0 off [] = Some (ret, calls)"
    then obtain off where wb: "writeback rs (PGROUNDDOWN addr)
                (ucast (PGROUNDUP (addr + scast len) - PGROUNDDOWN addr))
                (writeback_max cfg) 0 off [] = Some (ret, calls)"
      by blast
    from writeback_spec [OF wb] have a: "chained off calls"
      and b: "\<forall>c\<in>set calls. wlength c \<le>s writeback_max cfg"
      by auto
    have "\<forall>c\<in>set calls. unat (wlength c) \<le> unat (writeback_max cfg)"
      if mx: "0 \<le>s writeback_max cfg" and ob: "\<forall>c\<in>set calls. obeys c"
    proof -
      from wb have "writeback rs (PGROUNDDOWN addr)
                (ucast (PGROUNDUP (addr + scast len) - PGROUNDDOWN addr))
                (writeback_max cfg) 0 off [] = Some (ret, [] @ calls)"
        by simp
      from writeback_lengths [OF this mx _ ob] have "\<forall>c\<in>set calls. 0 \<le>s wlength c"
        by simp
      with b show ?thesis
        by (auto intro: sle_unat)
    qed
    with a b show ?thesis by blast
  qed
qed

theorem munmap_write_chunks_witness:
  "munmap lab_config [3072, 3072, 2048] wb_proc wb_state 0x4000 8192 =
     Some (Inr (0, [\<lparr>vma_addr = 0, vma_length = 0x2000, vma_prot = 3, vma_flags = 1,
                      vma_fileoff = 8192, vma_f = 0\<rparr>],
                wb_unmapped,
                [(0x4000, 8192, 3072, 3072), (0x4C00, 11264, 3072, 3072),
                 (0x5800, 14336, 2048, 2048)], [0]))
   \<and> 0 \<le>s writeback_max lab_config
   \<and> list_all obeys [(0x4000, 8192, 3072, 3072), (0x4C00, 11264, 3072, 3072),
                 (0x5800, 14336, 2048, 2048)]
   \<and> list_all (\<lambda>c. wlength c \<le>s writeback_max lab_config \<and>
                     unat (wlength c) \<le> unat (writeback_max lab_config))
        [(0x4000, 8192, 3072, 3072), (0x4C00, 11264, 3072, 3072), (0x5800, 14336, 2048, 2048)]
   \<and> (\<exists>off. chained off [(0x4000, 8192, 3072, 3072), (0x4C00, 11264, 3072, 3072),
                 (0x5800, 14336, 2048, 2048)])"
proof -
  have mx: "0 \<le>s writeback_max lab_config"
    by (simp add: writeback_max_lab word_sle_eq)
  have ob: "\<forall>c\<in>set [(0x4000, 8192, 3072, 3072), (0x4C00, 11264, 3072, 3072),
                 (0x5800 :: uint64, 14336 :: int32, 2048 :: int32, 2048 :: int32)]. obeys c"
    by (simp add: obeys_def word_sle_eq)
  from munmap_write_chunks [OF wb_munmap_full] mx ob
  show ?thesis
    using wb_munmap_full by (simp add: list_all_iff)
qed

lemma unat_page_bound:
  fixes va npages :: uint64
  assumes "unat va + unat npages * 4096 \<le> 2 ^ 38"
  shows "unat (va + npages * PGSIZE) = unat va + unat npages * 4096"
proof -
  have a: "unat npages * 4096 < 2 ^ 64" using assms by simp
  have "unat (npages * PGSIZE) = unat npages * unat PGSIZE"
    by (rule unat_mult_lem [THEN iffD1]) (use a in \<open>simp add: PGSIZE_def\<close>)
  then have m: "unat (npages * PGSIZE) = unat npages * 4096" by (simp add: PGSIZE_def)
  have "unat (va + npages * PGSIZE) = unat va + unat (npages * PGSIZE)"
    by (rule unat_add_lem [THEN iffD1]) (use assms m in simp)
  with m show ?thesis by simp
qed

lemma uvmunmap_spec:
  assumes ok: "pt_ok (physmem s) pt" and al: "page_aligned va"
    and bd: "unat va + unat npages * 4096 \<le> 2 ^ 38"
    and pres: "\<forall>k<unat npages. has0 (physmem s) pt (page va k) \<and>
                 slot0 (physmem s) pt (page va k) \<noteq> 0 \<and>
                 PTE_FLAGS (leaf (physmem s) pt (page va k)) \<noteq> PTE_V"
  shows "\<exists>s'. uvmunmap s pt va npages do_free = Inr s' \<and> pt_ok (physmem s') pt \<and>
           unmapped s pt va (unat npages) do_free s' \<and>
           tables1 (physmem s') pt = tables1 (physmem s) pt \<and>
           tables0 (physmem s') pt = tables0 (physmem s) pt"
proof -
  have b: "unat (va + npages * PGSIZE) = unat va + unat npages * 4096"
    using bd by (rule unat_page_bound)
  with bd have "unat (va + npages * PGSIZE) \<le> 2 ^ 38" by simp
  from uvmunmap_loop_spec [OF ok b this pres, of do_free] al show ?thesis
    by (simp add: uvmunmap_def page_aligned_mod)
qed

lemma uvmunmap_not_aligned:
  "\<not> page_aligned va \<Longrightarrow> uvmunmap s pt va npages do_free = Inl (Panic ''uvmunmap: not aligned'')"
  by (simp add: uvmunmap_def page_aligned_mod)

lemma writeback_returns:
  "\<exists>r\<in>set rs. r = 0 \<or> r = - 1 \<Longrightarrow>
     \<exists>ret out. writeback rs low n mx i off calls = Some (ret, out)"
proof (induction rs arbitrary: i off calls)
  case Nil
  then show ?case by simp
next
  case (Cons r rs)
  show ?case
  proof (cases "i <s n \<and> r \<noteq> 0 \<and> r \<noteq> - 1")
    case True
    with Cons.prems have "\<exists>r\<in>set rs. r = 0 \<or> r = - 1" by auto
    from Cons.IH [OF this] True show ?thesis
      by (simp add: Let_def)
  next
    case False
    then show ?thesis by (auto simp: Let_def)
  qed
qed

lemma writeback_results:
  "writeback rs low n mx i off calls = Some (ret, calls @ new) \<Longrightarrow>
     map wresult new = take (length new) rs"
proof (induction rs arbitrary: i off calls new)
  case Nil
  then show ?case by (simp split: if_splits)
next
  case (Cons r rs)
  show ?case
  proof (cases "i <s n")
    case False
    with Cons.prems show ?thesis by simp
  next
    case True
    define n1 where "n1 = (if mx <s n - i then mx else n - i)"
    define c where "c = (low + scast i, off, n1, r)"
    show ?thesis
    proof (cases "r = 0 \<or> r = - 1")
      case True
      with \<open>i <s n\<close> Cons.prems have "new = [c]"
        by (auto simp: Let_def c_def n1_def split: if_splits)
      then show ?thesis by (simp add: c_def wresult_def)
    next
      case False
      with \<open>i <s n\<close> Cons.prems have run:
        "writeback rs low n mx (i + r) (if 0 <s r then off + r else off) (calls @ [c])
           = Some (ret, calls @ new)"
        by (simp add: Let_def c_def n1_def)
      from writeback_spec [OF run] obtain new' where "calls @ new = (calls @ [c]) @ new'"
        by blast
      then have new: "new = c # new'" by simp
      from run new have "writeback rs low n mx (i + r) (if 0 <s r then off + r else off)
          (calls @ [c]) = Some (ret, (calls @ [c]) @ new')"
        by simp
      from Cons.IH [OF this] new show ?thesis
        by (simp add: c_def wresult_def)
    qed
  qed
qed

lemma sint_0_iff: "sint (w::int32) = 0 \<longleftrightarrow> w = 0"
proof
  assume "sint w = 0"
  moreover have "w = word_of_int (sint w)" by simp
  ultimately show "w = 0" by simp
qed simp

text \<open>What the writeback loop leaves when the results are ones the file layer returns.\<close>

lemma writeback_outcome:
  assumes run: "writeback rs low n mx i off [] = Some (ret, calls)"
    and contract: "\<forall>r\<in>set rs. r = - 1 \<or> 0 \<le>s r"
  shows "map wresult calls = take (length calls) rs"
    and "\<forall>c\<in>set (butlast calls). 0 <s wresult c"
    and "ret = (if calls \<noteq> [] \<and> wresult (last calls) <s 0 then - 1 else 0)"
proof -
  from run have run': "writeback rs low n mx i off [] = Some (ret, [] @ calls)" by simp
  show res: "map wresult calls = take (length calls) rs"
    using run' by (rule writeback_results)
  have tape: "wresult c \<in> set rs" if "c \<in> set calls" for c
  proof -
    from that have "wresult c \<in> set (map wresult calls)" by simp
    then show ?thesis unfolding res by (rule in_set_takeD)
  qed
  from writeback_spec [OF run] have
    a: "\<forall>c\<in>set (butlast calls). wresult c \<noteq> 0 \<and> wresult c \<noteq> - 1"
    and b: "ret = 0 \<or> ret = - 1"
    and c: "ret = - 1 \<longleftrightarrow> calls \<noteq> [] \<and> wresult (last calls) = - 1"
    by auto
  have neg: "r <s 0 \<longleftrightarrow> r = - 1" if "r \<in> set rs" for r :: int32
    using contract that by (auto simp: word_sless_alt word_sle_eq)
  show "\<forall>c\<in>set (butlast calls). 0 <s wresult c"
  proof
    fix c assume c: "c \<in> set (butlast calls)"
    then have "c \<in> set calls" by (rule in_set_butlastD)
    then have "wresult c \<in> set rs" by (rule tape)
    with contract have "wresult c = - 1 \<or> 0 \<le>s wresult c" by blast
    moreover from a c have "wresult c \<noteq> 0" "wresult c \<noteq> - 1" by auto
    ultimately show "0 <s wresult c"
      using sint_0_iff [of "wresult c"] by (auto simp: word_sless_alt word_sle_eq)
  qed
  show "ret = (if calls \<noteq> [] \<and> wresult (last calls) <s 0 then - 1 else 0)"
  proof (cases "calls = []")
    case True
    with b c show ?thesis by auto
  next
    case False
    then have "last calls \<in> set calls" by simp
    then have "wresult (last calls) \<in> set rs" by (rule tape)
    from neg [OF this] b c False show ?thesis by auto
  qed
qed

lemma unmapped_range:
  assumes "unmapped s pt va n do_free s'" and "k < n" and "has0 (physmem s) pt (page va k)"
  shows "leaf (physmem s') pt (page va k) =
           (if valid (leaf (physmem s) pt (page va k)) then 0 else leaf (physmem s) pt (page va k))"
    and "\<not> valid (leaf (physmem s') pt (page va k))"
proof -
  have "touched (physmem s) pt va n (page va k)"
    using assms(2,3) by (auto simp: touched_def)
  with assms(1) show "leaf (physmem s') pt (page va k) =
           (if valid (leaf (physmem s) pt (page va k)) then 0 else leaf (physmem s) pt (page va k))"
    by (simp add: unmapped_def)
  then show "\<not> valid (leaf (physmem s') pt (page va k))"
    by (simp split: if_splits)
qed

lemma unmapped_other:
  assumes "unmapped s pt va n do_free s'" and "\<not> touched (physmem s) pt va n vb"
  shows "leaf (physmem s') pt vb = leaf (physmem s) pt vb"
  using assms by (simp add: unmapped_def)

lemma munmap_region_spec:
  assumes contract: "\<forall>r\<in>set rs. r = - 1 \<or> 0 \<le>s r"
    and stop: "\<exists>r\<in>set rs. r \<le>s 0"
    and ok: "pt_ok (physmem s) pg" and al: "page_aligned low"
    and bd: "unat low + unat ((high - low) div PGSIZE) * 4096 \<le> 2 ^ 38"
    and pres: "\<forall>k<unat ((high - low) div PGSIZE). has0 (physmem s) pg (page low k) \<and>
                 slot0 (physmem s) pg (page low k) \<noteq> 0 \<and>
                 PTE_FLAGS (leaf (physmem s) pg (page low k)) \<noteq> PTE_V"
  shows "\<exists>ret s' calls. munmap_region cfg rs s pg low high n v =
             Some (Inr (ret, fst (vma_after_unmap v low high), s', calls,
                        snd (vma_after_unmap v low high))) \<and>
           map wresult calls = take (length calls) rs \<and>
           (\<forall>c\<in>set (butlast calls). 0 <s wresult c) \<and>
           ret = (if calls \<noteq> [] \<and> wresult (last calls) <s 0 then - 1 else 0) \<and>
           unmapped s pg low (unat ((high - low) div PGSIZE)) True s'"
proof -
  from uvmunmap_spec [OF ok al bd pres, of True] obtain s' where
    u: "uvmunmap s pg low ((high - low) div PGSIZE) True = Inr s'"
    and un: "unmapped s pg low (unat ((high - low) div PGSIZE)) True s'"
    by blast
  have "\<exists>r\<in>set rs. r = 0 \<or> r = - 1"
  proof -
    from stop obtain r where r: "r \<in> set rs" "r \<le>s 0" by blast
    with contract have "r = - 1 \<or> 0 \<le>s r" by blast
    with r(2) have "r = 0 \<or> r = - 1"
      using sint_0_iff [of r] by (auto simp: word_sle_eq)
    with r(1) show ?thesis by blast
  qed
  then obtain ret calls where
    wb: "writeback rs low n (writeback_max cfg) 0 (ucast (vma_fileoff v + (low - vma_addr v))) []
           = Some (ret, calls)"
    using writeback_returns by blast
  note oc = writeback_outcome [OF wb contract]
  show ?thesis
  proof (cases "vma_flags v AND MAP_SHARED cfg \<noteq> 0 \<and> vma_prot v AND PROT_WRITE cfg \<noteq> 0")
    case True
    then have "munmap_region cfg rs s pg low high n v =
             Some (Inr (ret, fst (vma_after_unmap v low high), s', calls,
                        snd (vma_after_unmap v low high)))"
      by (simp add: munmap_region_def wb u split: prod.splits)
    with oc un show ?thesis by blast
  next
    case False
    then have "munmap_region cfg rs s pg low high n v =
             Some (Inr (0, fst (vma_after_unmap v low high), s', [],
                        snd (vma_after_unmap v low high)))"
      by (auto simp: munmap_region_def u split: prod.splits)
    moreover have "map wresult [] = take (length ([] :: wcall list)) rs" by simp
    ultimately show ?thesis using un
      by (intro exI [of _ 0] exI [of _ s'] exI [of _ "[]"]) simp
  qed
qed

text \<open>
  A page table with one level-1 table and one level-0 table, reached through the first
  entry of the root table and of the level-1 table.
\<close>

lemma single_path:
  assumes A: "\<And>i. i < 512 \<Longrightarrow> load64 m (pt + 8 * i) = (if i = 0 then PA2PTE t1 OR PTE_V else 0)"
    and B: "\<And>i. i < 512 \<Longrightarrow> load64 m (t1 + 8 * i) = (if i = 0 then PA2PTE t0 OR PTE_V else 0)"
    and al: "page_aligned pt" "page_aligned t1" "page_aligned t0"
    and ne: "t1 \<noteq> pt" "t0 \<noteq> pt" "t1 \<noteq> t0"
  shows "pt_ok m pt"
    and "has0 m pt va \<longleftrightarrow> PX 2 va = 0 \<and> PX 1 va = 0"
    and "has0 m pt va \<Longrightarrow> slot0 m pt va = t0 + 8 * PX 0 va"
    and "pt_tree m pt"
proof -
  have p2: "pte2 m pt vb = (if PX 2 vb = 0 then PA2PTE t1 OR PTE_V else 0)" for vb
    unfolding pte2_def by (rule A) (rule PX_less)
  have h1: "has1 m pt vb \<longleftrightarrow> PX 2 vb = 0" for vb
    unfolding has1_def p2 using link_valid [of t1] by simp
  have t1: "tab1 m pt vb = t1" if "has1 m pt vb" for vb
    using that al(2) unfolding tab1_def p2 h1 by (simp add: PTE2PA_link)
  have p1: "pte1 m pt vb = (if PX 1 vb = 0 then PA2PTE t0 OR PTE_V else 0)" if "has1 m pt vb" for vb
    unfolding pte1_def t1 [OF that] by (rule B) (rule PX_less)
  show h0: "has0 m pt vb \<longleftrightarrow> PX 2 vb = 0 \<and> PX 1 vb = 0" for vb
  proof (cases "has1 m pt vb")
    case True
    then show ?thesis
      unfolding has0_def p1 [OF True] using link_valid [of t0] h1 [of vb] by simp
  next
    case False
    then show ?thesis unfolding has0_def using h1 [of vb] by simp
  qed
  have t0: "tab0 m pt vb = t0" if "has0 m pt vb" for vb
  proof -
    from that have a: "has1 m pt vb" by (simp add: has0_def)
    from that have "PX 1 vb = 0" by (simp add: h0)
    then show ?thesis
      unfolding tab0_def p1 [OF a] using al(3) by (simp add: PTE2PA_link)
  qed
  show "has0 m pt va \<Longrightarrow> slot0 m pt va = t0 + 8 * PX 0 va"
    by (simp add: slot0_def t0)
  have "tables1 m pt \<subseteq> {t1}" "tables0 m pt \<subseteq> {t0}"
    using t1 t0 by (auto simp: tables1_def tables0_def)
  with al(1) ne show "pt_ok m pt"
    unfolding pt_ok_def by blast
  show "pt_tree m pt"
    unfolding pt_tree_def using h1 h0 by simp
qed

lemma wb_root:
  assumes "i < 512"
  shows "load64 wb_mem (0x80001000 + 8 * i) = (if i = 0 then PA2PTE 0x80002000 OR PTE_V else 0)"
proof -
  have a: "load64 (store64 mm 0x80003028 v) (0x80001000 + 8 * i) = load64 mm (0x80001000 + 8 * i)"
    for mm v
    using load_store_slot [of "0x80003000" "0x80001000" 5 i mm v] assms
    by (simp add: page_aligned_def PGSIZE_def)
  have b: "load64 (store64 mm 0x80003020 v) (0x80001000 + 8 * i) = load64 mm (0x80001000 + 8 * i)"
    for mm v
    using load_store_slot [of "0x80003000" "0x80001000" 4 i mm v] assms
    by (simp add: page_aligned_def PGSIZE_def)
  have c: "load64 (store64 mm 0x80002000 v) (0x80001000 + 8 * i) = load64 mm (0x80001000 + 8 * i)"
    for mm v
    using load_store_slot [of "0x80002000" "0x80001000" 0 i mm v] assms
    by (simp add: page_aligned_def PGSIZE_def)
  have d: "load64 (store64 zero_mem 0x80001000 v) (0x80001000 + 8 * i) = (if i = 0 then v else 0)"
    for v
  proof (cases "i = 0")
    case True
    then show ?thesis by (simp add: load_store_same)
  next
    case False
    then show ?thesis
      using load_store_slot [of "0x80001000" "0x80001000" 0 i zero_mem v] assms
      by (simp add: page_aligned_def PGSIZE_def load_zero_mem)
  qed
  show ?thesis
    unfolding wb_mem_def a b c d ..
qed

lemma wb_level1:
  assumes "i < 512"
  shows "load64 wb_mem (0x80002000 + 8 * i) = (if i = 0 then PA2PTE 0x80003000 OR PTE_V else 0)"
proof -
  have a: "load64 (store64 mm 0x80003028 v) (0x80002000 + 8 * i) = load64 mm (0x80002000 + 8 * i)"
    for mm v
    using load_store_slot [of "0x80003000" "0x80002000" 5 i mm v] assms
    by (simp add: page_aligned_def PGSIZE_def)
  have b: "load64 (store64 mm 0x80003020 v) (0x80002000 + 8 * i) = load64 mm (0x80002000 + 8 * i)"
    for mm v
    using load_store_slot [of "0x80003000" "0x80002000" 4 i mm v] assms
    by (simp add: page_aligned_def PGSIZE_def)
  have d: "load64 (store64 (store64 zero_mem 0x80001000 w) 0x80002000 v) (0x80002000 + 8 * i)
             = (if i = 0 then v else 0)" for v w
  proof (cases "i = 0")
    case True
    then show ?thesis by (simp add: load_store_same)
  next
    case False
    have "load64 (store64 (store64 zero_mem 0x80001000 w) 0x80002000 v) (0x80002000 + 8 * i)
            = load64 (store64 zero_mem 0x80001000 w) (0x80002000 + 8 * i)"
      using load_store_slot [of "0x80002000" "0x80002000" 0 i "store64 zero_mem 0x80001000 w" v]
        assms False
      by (simp add: page_aligned_def PGSIZE_def)
    also have "\<dots> = 0"
      using load_store_slot [of "0x80001000" "0x80002000" 0 i zero_mem w] assms
      by (simp add: page_aligned_def PGSIZE_def load_zero_mem)
    finally show ?thesis using False by simp
  qed
  show ?thesis
    unfolding wb_mem_def a b d ..
qed

lemma wb_table:
  shows wb_ok: "pt_ok wb_mem 0x80001000"
    and wb_has0: "has0 wb_mem 0x80001000 va \<longleftrightarrow> PX 2 va = 0 \<and> PX 1 va = 0"
    and wb_slot0: "has0 wb_mem 0x80001000 va \<Longrightarrow> slot0 wb_mem 0x80001000 va = 0x80003000 + 8 * PX 0 va"
    and wb_tree: "pt_tree wb_mem 0x80001000"
proof -
  have al: "page_aligned (0x80001000 :: uint64)" "page_aligned (0x80002000 :: uint64)"
    "page_aligned (0x80003000 :: uint64)"
    by (simp_all add: page_aligned_def PGSIZE_def)
  have ne: "(0x80002000 :: uint64) \<noteq> 0x80001000" "(0x80003000 :: uint64) \<noteq> 0x80001000"
    "(0x80002000 :: uint64) \<noteq> 0x80003000"
    by simp_all
  note sp = single_path [of wb_mem "0x80001000" "0x80002000" "0x80003000", OF wb_root wb_level1 al ne]
  show "pt_ok wb_mem 0x80001000" by (rule sp(1))
  show "has0 wb_mem 0x80001000 va \<longleftrightarrow> PX 2 va = 0 \<and> PX 1 va = 0" by (rule sp(2))
  show "has0 wb_mem 0x80001000 va \<Longrightarrow> slot0 wb_mem 0x80001000 va = 0x80003000 + 8 * PX 0 va"
    by (rule sp(3))
  show "pt_tree wb_mem 0x80001000" by (rule sp(4))
qed

lemma wb_pages:
  shows "has0 wb_mem 0x80001000 0x4000" "has0 wb_mem 0x80001000 0x5000"
    and "slot0 wb_mem 0x80001000 0x4000 = 0x80003020" "slot0 wb_mem 0x80001000 0x5000 = 0x80003028"
    and "leaf wb_mem 0x80001000 0x4000 =
           PA2PTE 0x80006000 OR PTE_V OR PTE_R OR PTE_W OR PTE_U OR 0x100"
    and "leaf wb_mem 0x80001000 0x5000 = PTE_V OR PTE_U OR 0x100"
proof -
  show h4: "has0 wb_mem 0x80001000 0x4000" by (simp add: wb_has0 PX_def)
  show h5: "has0 wb_mem 0x80001000 0x5000" by (simp add: wb_has0 PX_def)
  show s4: "slot0 wb_mem 0x80001000 0x4000 = 0x80003020"
    using wb_slot0 [OF h4] by (simp add: PX_def)
  show s5: "slot0 wb_mem 0x80001000 0x5000 = 0x80003028"
    using wb_slot0 [OF h5] by (simp add: PX_def)
  show "leaf wb_mem 0x80001000 0x4000 =
           PA2PTE 0x80006000 OR PTE_V OR PTE_R OR PTE_W OR PTE_U OR 0x100"
    unfolding leaf_def s4 using h4 by (simp add: wb_mem_def load_simps)
  show "leaf wb_mem 0x80001000 0x5000 = PTE_V OR PTE_U OR 0x100"
    unfolding leaf_def s5 using h5 by (simp add: wb_mem_def load_simps)
qed

lemma wb_range:
  "\<forall>k<2. has0 (physmem wb_state) (p_pagetable wb_proc) (page 0x4000 k) \<and>
          slot0 (physmem wb_state) (p_pagetable wb_proc) (page 0x4000 k) \<noteq> 0 \<and>
          PTE_FLAGS (leaf (physmem wb_state) (p_pagetable wb_proc) (page 0x4000 k)) \<noteq> PTE_V"
proof (intro allI impI)
  fix k :: nat assume "k < 2"
  then have "k = 0 \<or> k = 1" by auto
  then have "page 0x4000 k = 0x4000 \<or> page 0x4000 k = 0x5000"
    by (auto simp: page_def PGSIZE_def)
  then show "has0 (physmem wb_state) (p_pagetable wb_proc) (page 0x4000 k) \<and>
          slot0 (physmem wb_state) (p_pagetable wb_proc) (page 0x4000 k) \<noteq> 0 \<and>
          PTE_FLAGS (leaf (physmem wb_state) (p_pagetable wb_proc) (page 0x4000 k)) \<noteq> PTE_V"
    by (auto simp: wb_state_sel wb_proc_def wb_pages PTE_FLAGS_def PTE_V_def PTE_U_def PTE_R_def
          PTE_W_def PA2PTE_def)
qed

text \<open>The same unmap when the first write fails: \<open>munmap\<close> returns -1, with the pages removed.\<close>

lemma wb_munmap_error:
  "munmap lab_config [- 1] wb_proc wb_state 0x4000 8192 =
     Some (Inr (- 1, [\<lparr>vma_addr = 0, vma_length = 0x2000, vma_prot = 3, vma_flags = 1,
                      vma_fileoff = 8192, vma_f = 0\<rparr>],
                wb_unmapped, [(0x4000, 8192, 3072, - 1)], [0]))"
  by (simp add: munmap_def munmap_region_def vma_after_unmap_def wb_proc_def writeback_max_lab
      PGROUNDDOWN_def PGROUNDUP_def wb_unmap Let_def word_sless_alt)
     (simp add: lab_config_def PGSIZE_def wb_unmap)

text \<open>
  C7. \<open>munmap\<close> on the region that contains \<open>addr\<close>, with the page table well formed, the
  leaf slots of the pages of the range \<open>[low, high)\<close> present and no entry there that
  \<open>uvmunmap\<close> refuses. The results of \<open>writei\<close> are ones the file layer returns: a number
  of bytes that is not negative, or the error value -1, which is the one negative result
  (the test \<open>r == -1\<close> of the loop is commented as the error from \<open>writei\<close>); one of them
  is 0 or negative. Then \<open>munmap\<close> returns. Every call of \<open>writei\<close> but the last has
  written something, so that a result of 0 and a negative result each end the loop;
  \<open>munmap\<close> returns -1 when the last result is negative and 0 otherwise, in particular
  when the last result is 0. In every case the valid leaf entries of the pages of the
  range have become 0, none of these pages is mapped any more, and the frames of the
  entries removed, and nothing else, have been put on the free list.
\<close>

theorem munmap_writeback_outcome:
  assumes tab: "p_vmatable p = before @ v # rest"
    and skip: "\<forall>u\<in>set before. vma_addr u = 0 \<or> addr < vma_addr u \<or> vma_addr u + vma_length u \<le> addr"
    and hit: "vma_addr v \<noteq> 0" "vma_addr v \<le> addr" "addr < vma_addr v + vma_length v"
    and contract: "\<forall>r\<in>set rs. r = - 1 \<or> 0 \<le>s r"
    and stop: "\<exists>r\<in>set rs. r \<le>s 0"
    and low: "low = PGROUNDDOWN addr" and n: "n = unat ((PGROUNDUP (addr + scast len) - low) div PGSIZE)"
    and ok: "pt_ok (physmem s) (p_pagetable p)"
    and bd: "unat low + n * 4096 \<le> 2 ^ 38"
    and pres: "\<forall>k<n. has0 (physmem s) (p_pagetable p) (page low k) \<and>
                 slot0 (physmem s) (p_pagetable p) (page low k) \<noteq> 0 \<and>
                 PTE_FLAGS (leaf (physmem s) (p_pagetable p) (page low k)) \<noteq> PTE_V"
  shows "\<exists>ret vmas s' calls closed.
           munmap cfg rs p s addr len = Some (Inr (ret, vmas, s', calls, closed)) \<and>
           map wresult calls = take (length calls) rs \<and>
           (\<forall>c\<in>set (butlast calls). 0 <s wresult c) \<and>
           ret = (if calls \<noteq> [] \<and> wresult (last calls) <s 0 then - 1 else 0) \<and>
           (\<forall>k<n. leaf (physmem s') (p_pagetable p) (page low k) =
                    (if valid (leaf (physmem s) (p_pagetable p) (page low k)) then 0
                     else leaf (physmem s) (p_pagetable p) (page low k))) \<and>
           (\<forall>k<n. \<not> valid (leaf (physmem s') (p_pagetable p) (page low k))) \<and>
           (\<exists>fs. freelist s' = fs @ freelist s \<and>
                 set fs = frames (physmem s) (p_pagetable p) low n)"
proof -
  let ?high = "PGROUNDUP (addr + scast len)"
  let ?n = "ucast (?high - low) :: int32"
  have al: "page_aligned low" by (simp add: low)
  from munmap_region_spec [OF contract stop ok al bd [unfolded n] pres [unfolded n],
      where cfg=cfg and n="?n" and v=v]
  obtain ret s' calls where
    r: "munmap_region cfg rs s (p_pagetable p) low ?high ?n v =
             Some (Inr (ret, fst (vma_after_unmap v low ?high), s', calls,
                        snd (vma_after_unmap v low ?high)))"
    and oc: "map wresult calls = take (length calls) rs"
      "\<forall>c\<in>set (butlast calls). 0 <s wresult c"
      "ret = (if calls \<noteq> [] \<and> wresult (last calls) <s 0 then - 1 else 0)"
    and un: "unmapped s (p_pagetable p) low n True s'"
    unfolding n by blast
  have run: "munmap cfg rs p s addr len =
      Some (Inr (ret, [] @ before @ fst (vma_after_unmap v low ?high) # rest, s', calls,
                 snd (vma_after_unmap v low ?high)))"
    unfolding munmap_def Let_def tab low [symmetric]
    by (simp add: munmap_scan_found [OF skip hit] r)
  have lf: "leaf (physmem s') (p_pagetable p) (page low k) =
                    (if valid (leaf (physmem s) (p_pagetable p) (page low k)) then 0
                     else leaf (physmem s) (p_pagetable p) (page low k))"
    and nv: "\<not> valid (leaf (physmem s') (p_pagetable p) (page low k))" if "k < n" for k
    using unmapped_range [OF un that] pres that by simp_all
  from un have "\<exists>fs. freelist s' = fs @ freelist s \<and>
                 set fs = frames (physmem s) (p_pagetable p) low n"
    by (simp add: unmapped_def)
  with run oc lf nv show ?thesis by blast
qed

theorem munmap_writeback_outcome_witness:
  "munmap lab_config [3072, 0] wb_proc wb_state 0x4000 8192 =
     Some (Inr (0, [\<lparr>vma_addr = 0, vma_length = 0x2000, vma_prot = 3, vma_flags = 1,
                      vma_fileoff = 8192, vma_f = 0\<rparr>],
                wb_unmapped, [(0x4000, 8192, 3072, 3072), (0x4C00, 11264, 3072, 0)], [0]))
   \<and> munmap lab_config [- 1] wb_proc wb_state 0x4000 8192 =
     Some (Inr (- 1, [\<lparr>vma_addr = 0, vma_length = 0x2000, vma_prot = 3, vma_flags = 1,
                      vma_fileoff = 8192, vma_f = 0\<rparr>],
                wb_unmapped, [(0x4000, 8192, 3072, - 1)], [0]))
   \<and> pt_ok (physmem wb_state) (p_pagetable wb_proc)
   \<and> valid (leaf (physmem wb_state) (p_pagetable wb_proc) (page 0x4000 0))
   \<and> valid (leaf (physmem wb_state) (p_pagetable wb_proc) (page 0x4000 1))
   \<and> leaf (physmem wb_unmapped) (p_pagetable wb_proc) (page 0x4000 0) = 0
   \<and> leaf (physmem wb_unmapped) (p_pagetable wb_proc) (page 0x4000 1) = 0
   \<and> frames (physmem wb_state) (p_pagetable wb_proc) 0x4000 2 = {0x80006000}
   \<and> freelist wb_unmapped = [0x80006000] @ freelist wb_state"
proof -
  let ?v = "\<lparr>vma_addr = 0x4000, vma_length = 0x2000, vma_prot = 3,
          vma_flags = 1, vma_fileoff = 8192, vma_f = 0 :: nat\<rparr>"
  have tab: "p_vmatable wb_proc = [] @ ?v # []"
    by (simp add: wb_proc_def)
  have skip: "\<forall>u\<in>set []. vma_addr u = 0 \<or> (0x4000 :: uint64) < vma_addr u
                \<or> vma_addr u + vma_length u \<le> 0x4000"
    by simp
  have hit: "vma_addr ?v \<noteq> 0" "vma_addr ?v \<le> 0x4000" "0x4000 < vma_addr ?v + vma_length ?v"
    by simp_all
  have low: "(0x4000 :: uint64) = PGROUNDDOWN 0x4000"
    by (simp add: PGROUNDDOWN_def PGSIZE_def)
  have n: "(2 :: nat) = unat ((PGROUNDUP (0x4000 + scast (8192 :: int32)) - 0x4000) div PGSIZE)"
    by (simp add: PGROUNDUP_def PGSIZE_def)
  have ok: "pt_ok (physmem wb_state) (p_pagetable wb_proc)"
    by (simp add: wb_state_sel wb_proc_def wb_ok)
  have bd: "unat (0x4000 :: uint64) + 2 * 4096 \<le> 2 ^ 38" by simp
  have c1: "\<forall>r\<in>set [3072, 0 :: int32]. r = - 1 \<or> 0 \<le>s r" by (simp add: word_sle_eq)
  have s1: "\<exists>r\<in>set [3072, 0 :: int32]. r \<le>s 0" by (simp add: word_sle_eq)
  have c2: "\<forall>r\<in>set [- 1 :: int32]. r = - 1 \<or> 0 \<le>s r" by simp
  have s2: "\<exists>r\<in>set [- 1 :: int32]. r \<le>s 0" by (simp add: word_sle_eq)
  from munmap_writeback_outcome [OF tab skip hit c1 s1 low n ok bd wb_range, of lab_config]
  obtain s' where
    r: "munmap lab_config [3072, 0] wb_proc wb_state 0x4000 8192 = Some (Inr s')"
    and lf: "\<forall>k<2. leaf (physmem (fst (snd (snd s')))) (p_pagetable wb_proc) (page 0x4000 k) =
                    (if valid (leaf (physmem wb_state) (p_pagetable wb_proc) (page 0x4000 k)) then 0
                     else leaf (physmem wb_state) (p_pagetable wb_proc) (page 0x4000 k))"
    and fs: "\<exists>fs. freelist (fst (snd (snd s'))) = fs @ freelist wb_state \<and>
                 set fs = frames (physmem wb_state) (p_pagetable wb_proc) 0x4000 2"
    by auto
  from r have s': "fst (snd (snd s')) = wb_unmapped"
    by (auto simp: wb_munmap_short)
  from munmap_writeback_outcome [OF tab skip hit c2 s2 low n ok bd wb_range, of lab_config]
  have "\<exists>x. munmap lab_config [- 1] wb_proc wb_state 0x4000 8192 = Some (Inr x)"
    by auto
  have v0: "valid (leaf (physmem wb_state) (p_pagetable wb_proc) (page 0x4000 0))"
    by (simp add: wb_state_sel wb_proc_def wb_pages)
       (simp add: valid_def PTE_V_def PTE_U_def PTE_R_def PTE_W_def PA2PTE_def)
  have v1: "valid (leaf (physmem wb_state) (p_pagetable wb_proc) (page 0x4000 1))"
    by (simp add: wb_state_sel wb_proc_def wb_pages page_def PGSIZE_def)
       (simp add: valid_def PTE_V_def PTE_U_def PTE_R_def PTE_W_def PA2PTE_def)
  have l: "leaf (physmem wb_unmapped) (p_pagetable wb_proc) (page 0x4000 0) = 0"
    "leaf (physmem wb_unmapped) (p_pagetable wb_proc) (page 0x4000 1) = 0"
    using lf [unfolded s', rule_format, of 0] lf [unfolded s', rule_format, of 1] v0 v1
    by simp_all
  from fs have f: "frames (physmem wb_state) (p_pagetable wb_proc) 0x4000 2 = {0x80006000}"
    unfolding s' by (auto simp: wb_unmapped_def wb_state_sel)
  show ?thesis
    using wb_munmap_short wb_munmap_error ok v0 v1 l f
    by (simp add: wb_unmapped_def wb_state_sel)
qed

subsection \<open>Removing the pages of a range\<close>

text \<open>
  C5. \<open>uvmunmap\<close> panics when \<open>va\<close> is not page aligned. When it is, the page table is
  well formed, the range of \<open>npages\<close> pages from \<open>va\<close> on lies below \<open>MAXVA\<close>, and for
  each page of the range the tables exist (\<open>walk\<close> returns its leaf slot) and the entry is
  not one that \<open>uvmunmap\<close> refuses as not a leaf, then \<open>uvmunmap\<close> returns. A page of the
  range whose entry is invalid is passed over with its entry as it was, and a valid
  entry has become 0. The entry of an address whose leaf slot is not the slot of a page
  of the range is as it was; when the tables form a tree this holds for every address
  below \<open>MAXVA\<close> outside the pages of the range. No leaf slot has appeared or gone. When
  \<open>do_free\<close> is set the free list has gained the frames of the valid entries of the range
  (an entry with frame address 0 has no frame) and nothing else, and without \<open>do_free\<close> it
  has not changed.
\<close>

theorem uvmunmap_clears_range:
  "(va mod PGSIZE \<noteq> 0 \<longrightarrow>
      uvmunmap s pt va npages do_free = Inl (Panic ''uvmunmap: not aligned'')) \<and>
   (va mod PGSIZE = 0 \<and> pt_ok (physmem s) pt \<and> unat va + unat npages * 4096 \<le> 2 ^ 38 \<and>
    (\<forall>k<unat npages. has0 (physmem s) pt (page va k) \<and> slot0 (physmem s) pt (page va k) \<noteq> 0 \<and>
        PTE_FLAGS (leaf (physmem s) pt (page va k)) \<noteq> PTE_V) \<longrightarrow>
      (\<exists>s'. uvmunmap s pt va npages do_free = Inr s' \<and>
         (\<forall>k<unat npages. leaf (physmem s') pt (page va k) =
            (if valid (leaf (physmem s) pt (page va k)) then 0
             else leaf (physmem s) pt (page va k))) \<and>
         (\<forall>vb. \<not> touched (physmem s) pt va (unat npages) vb \<longrightarrow>
            leaf (physmem s') pt vb = leaf (physmem s) pt vb) \<and>
         (pt_tree (physmem s) pt \<longrightarrow>
            (\<forall>vb. vb < MAXVA \<and> (\<forall>k<unat npages. PGROUNDDOWN vb \<noteq> page va k) \<longrightarrow>
               leaf (physmem s') pt vb = leaf (physmem s) pt vb)) \<and>
         (\<forall>vb. has0 (physmem s') pt vb = has0 (physmem s) pt vb) \<and>
         (\<exists>fs. freelist s' = fs @ freelist s \<and>
            set fs = (if do_free then frames (physmem s) pt va (unat npages) else {}))))"
proof (intro conjI impI)
  assume "va mod PGSIZE \<noteq> 0"
  then show "uvmunmap s pt va npages do_free = Inl (Panic ''uvmunmap: not aligned'')"
    by (simp add: uvmunmap_def)
next
  assume a: "va mod PGSIZE = 0 \<and> pt_ok (physmem s) pt \<and> unat va + unat npages * 4096 \<le> 2 ^ 38 \<and>
    (\<forall>k<unat npages. has0 (physmem s) pt (page va k) \<and> slot0 (physmem s) pt (page va k) \<noteq> 0 \<and>
        PTE_FLAGS (leaf (physmem s) pt (page va k)) \<noteq> PTE_V)"
  then have al: "page_aligned va" and ok: "pt_ok (physmem s) pt"
    and bd: "unat va + unat npages * 4096 \<le> 2 ^ 38"
    and pres: "\<forall>k<unat npages. has0 (physmem s) pt (page va k) \<and>
        slot0 (physmem s) pt (page va k) \<noteq> 0 \<and>
        PTE_FLAGS (leaf (physmem s) pt (page va k)) \<noteq> PTE_V"
    by (simp_all add: page_aligned_mod)
  from uvmunmap_spec [OF ok al bd pres, of do_free] obtain s' where
    u: "uvmunmap s pt va npages do_free = Inr s'"
    and un: "unmapped s pt va (unat npages) do_free s'"
    by blast
  have r: "\<forall>k<unat npages. leaf (physmem s') pt (page va k) =
            (if valid (leaf (physmem s) pt (page va k)) then 0
             else leaf (physmem s) pt (page va k))"
    using unmapped_range(1) [OF un] pres by blast
  have o: "\<forall>vb. \<not> touched (physmem s) pt va (unat npages) vb \<longrightarrow>
            leaf (physmem s') pt vb = leaf (physmem s) pt vb"
    using unmapped_other [OF un] by blast
  have t: "pt_tree (physmem s) pt \<longrightarrow>
            (\<forall>vb. vb < MAXVA \<and> (\<forall>k<unat npages. PGROUNDDOWN vb \<noteq> page va k) \<longrightarrow>
               leaf (physmem s') pt vb = leaf (physmem s) pt vb)"
    using tree_untouched [OF _ al bd] unmapped_other [OF un] by blast
  from un have h: "\<forall>vb. has0 (physmem s') pt vb = has0 (physmem s) pt vb"
    and f: "\<exists>fs. freelist s' = fs @ freelist s \<and>
            set fs = (if do_free then frames (physmem s) pt va (unat npages) else {})"
    by (simp_all add: unmapped_def)
  from u r o t h f show "\<exists>s'. uvmunmap s pt va npages do_free = Inr s' \<and>
         (\<forall>k<unat npages. leaf (physmem s') pt (page va k) =
            (if valid (leaf (physmem s) pt (page va k)) then 0
             else leaf (physmem s) pt (page va k))) \<and>
         (\<forall>vb. \<not> touched (physmem s) pt va (unat npages) vb \<longrightarrow>
            leaf (physmem s') pt vb = leaf (physmem s) pt vb) \<and>
         (pt_tree (physmem s) pt \<longrightarrow>
            (\<forall>vb. vb < MAXVA \<and> (\<forall>k<unat npages. PGROUNDDOWN vb \<noteq> page va k) \<longrightarrow>
               leaf (physmem s') pt vb = leaf (physmem s) pt vb)) \<and>
         (\<forall>vb. has0 (physmem s') pt vb = has0 (physmem s) pt vb) \<and>
         (\<exists>fs. freelist s' = fs @ freelist s \<and>
            set fs = (if do_free then frames (physmem s) pt va (unat npages) else {}))"
    by blast
qed

lemma wb_page3:
  shows "has0 wb_mem 0x80001000 0x3000" and "slot0 wb_mem 0x80001000 0x3000 = 0x80003018"
    and "leaf wb_mem 0x80001000 0x3000 = 0"
proof -
  show h: "has0 wb_mem 0x80001000 0x3000" by (simp add: wb_has0 PX_def)
  show s: "slot0 wb_mem 0x80001000 0x3000 = 0x80003018"
    using wb_slot0 [OF h] by (simp add: PX_def)
  show "leaf wb_mem 0x80001000 0x3000 = 0"
    unfolding leaf_def s using h by (simp add: wb_mem_def load_simps)
qed

lemma wb_frames: "frames wb_mem 0x80001000 0x3000 2 = {0x80006000}"
proof -
  have "frames wb_mem 0x80001000 0x3000 (Suc (Suc 0)) = {0x80006000}"
    unfolding frames_Suc
    by (simp add: PGSIZE_def wb_page3 wb_pages)
       (simp add: valid_def PTE2PA_def PA2PTE_def PTE_V_def PTE_U_def PTE_R_def PTE_W_def)
  then show ?thesis by (simp add: numeral_2_eq_2)
qed

theorem uvmunmap_clears_range_witness:
  "(0x3000 :: uint64) mod PGSIZE = 0 \<and> pt_ok (physmem wb_state) 0x80001000 \<and>
   pt_tree (physmem wb_state) 0x80001000 \<and>
   \<not> valid (leaf (physmem wb_state) 0x80001000 (page 0x3000 0)) \<and>
   valid (leaf (physmem wb_state) 0x80001000 (page 0x3000 1)) \<and>
   (\<exists>s'. uvmunmap wb_state 0x80001000 0x3000 2 True = Inr s' \<and>
      leaf (physmem s') 0x80001000 (page 0x3000 0) = leaf (physmem wb_state) 0x80001000 (page 0x3000 0) \<and>
      leaf (physmem s') 0x80001000 (page 0x3000 1) = 0 \<and>
      leaf (physmem s') 0x80001000 0x5000 = PTE_V OR PTE_U OR 0x100 \<and>
      set (freelist s') = {0x80006000}) \<and>
   uvmunmap wb_state 0x80001000 0x3001 2 True = Inl (Panic ''uvmunmap: not aligned'')"
proof -
  have al: "(0x3000 :: uint64) mod PGSIZE = 0" by (simp add: PGSIZE_def)
  have ok: "pt_ok (physmem wb_state) 0x80001000" by (simp add: wb_state_sel wb_ok)
  have tr: "pt_tree (physmem wb_state) 0x80001000" by (simp add: wb_state_sel wb_tree)
  have bd: "unat (0x3000 :: uint64) + unat (2 :: uint64) * 4096 \<le> 2 ^ 38" by simp
  have p0: "page 0x3000 0 = 0x3000" and p1: "page 0x3000 1 = 0x4000"
    by (simp_all add: page_def PGSIZE_def)
  have v0: "\<not> valid (leaf (physmem wb_state) 0x80001000 (page 0x3000 0))"
    unfolding p0 by (simp add: wb_state_sel wb_page3)
  have v1: "valid (leaf (physmem wb_state) 0x80001000 (page 0x3000 1))"
    unfolding p1 by (simp add: wb_state_sel wb_pages)
       (simp add: valid_def PTE_V_def PTE_U_def PTE_R_def PTE_W_def PA2PTE_def)
  have pres: "\<forall>k<unat (2 :: uint64). has0 (physmem wb_state) 0x80001000 (page 0x3000 k) \<and>
        slot0 (physmem wb_state) 0x80001000 (page 0x3000 k) \<noteq> 0 \<and>
        PTE_FLAGS (leaf (physmem wb_state) 0x80001000 (page 0x3000 k)) \<noteq> PTE_V"
  proof (intro allI impI)
    fix k :: nat assume "k < unat (2 :: uint64)"
    then have "k = 0 \<or> k = 1" by auto
    then have "page 0x3000 k = 0x3000 \<or> page 0x3000 k = 0x4000"
      using p0 p1 by auto
    then show "has0 (physmem wb_state) 0x80001000 (page 0x3000 k) \<and>
        slot0 (physmem wb_state) 0x80001000 (page 0x3000 k) \<noteq> 0 \<and>
        PTE_FLAGS (leaf (physmem wb_state) 0x80001000 (page 0x3000 k)) \<noteq> PTE_V"
      by (auto simp: wb_state_sel wb_pages wb_page3 PTE_FLAGS_def PTE_V_def PTE_U_def PTE_R_def
            PTE_W_def PA2PTE_def)
  qed
  have out: "(0x5000 :: uint64) < MAXVA \<and> (\<forall>k<unat (2 :: uint64). PGROUNDDOWN 0x5000 \<noteq> page 0x3000 k)"
  proof (intro conjI allI impI)
    show "(0x5000 :: uint64) < MAXVA" by (simp add: MAXVA_def)
    fix k :: nat assume "k < unat (2 :: uint64)"
    then have "k = 0 \<or> k = 1" by auto
    then show "PGROUNDDOWN 0x5000 \<noteq> page 0x3000 k"
      using p0 p1 by (auto simp: PGROUNDDOWN_def PGSIZE_def)
  qed
  from uvmunmap_clears_range [of "0x3000" wb_state "0x80001000" 2 True] al ok bd pres
  obtain s' where u: "uvmunmap wb_state 0x80001000 0x3000 2 True = Inr s'"
    and r: "\<forall>k<unat (2 :: uint64). leaf (physmem s') 0x80001000 (page 0x3000 k) =
            (if valid (leaf (physmem wb_state) 0x80001000 (page 0x3000 k)) then 0
             else leaf (physmem wb_state) 0x80001000 (page 0x3000 k))"
    and t: "pt_tree (physmem wb_state) 0x80001000 \<longrightarrow>
            (\<forall>vb. vb < MAXVA \<and> (\<forall>k<unat (2 :: uint64). PGROUNDDOWN vb \<noteq> page 0x3000 k) \<longrightarrow>
               leaf (physmem s') 0x80001000 vb = leaf (physmem wb_state) 0x80001000 vb)"
    and f: "\<exists>fs. freelist s' = fs @ freelist wb_state \<and>
            set fs = (if True then frames (physmem wb_state) 0x80001000 0x3000 (unat (2 :: uint64)) else {})"
    by blast
  have l0: "leaf (physmem s') 0x80001000 (page 0x3000 0) =
            leaf (physmem wb_state) 0x80001000 (page 0x3000 0)"
    using r [rule_format, of 0] v0 by simp
  have l1: "leaf (physmem s') 0x80001000 (page 0x3000 1) = 0"
    using r [rule_format, of 1] v1 by simp
  have l5: "leaf (physmem s') 0x80001000 0x5000 = PTE_V OR PTE_U OR 0x100"
    using t tr out by (simp add: wb_state_sel wb_pages)
  have fl: "set (freelist s') = {0x80006000}"
    using f by (auto simp: wb_state_sel wb_frames)
  have na: "uvmunmap wb_state 0x80001000 0x3001 2 True = Inl (Panic ''uvmunmap: not aligned'')"
    using uvmunmap_clears_range [of "0x3001" wb_state "0x80001000" 2 True]
    by (simp add: PGSIZE_def)
  from al ok tr v0 v1 u l0 l1 l5 fl na show ?thesis by blast
qed

subsection \<open>Mapping a range and walking it\<close>

lemma page_aligned_add: "page_aligned a \<Longrightarrow> page_aligned b \<Longrightarrow> page_aligned (a + b)"
proof -
  assume "page_aligned a" "page_aligned b"
  then have "4096 dvd unat a + unat b" by (simp add: page_aligned_dvd)
  moreover have "(4096 :: nat) dvd 2 ^ 64" by simp
  ultimately have "4096 dvd (unat a + unat b) mod 2 ^ 64" by (rule dvd_mod)
  then show ?thesis by (simp add: page_aligned_dvd unat_word_ariths)
qed

lemma page_aligned_times: "page_aligned (x * PGSIZE)"
proof -
  have "(4096 :: nat) dvd unat x * 4096" by simp
  moreover have "(4096 :: nat) dvd 2 ^ 64" by simp
  ultimately have "4096 dvd (unat x * 4096) mod 2 ^ 64" by (rule dvd_mod)
  then show ?thesis by (simp add: page_aligned_dvd unat_word_ariths PGSIZE_def)
qed

lemma page_aligned_page_any: "page_aligned pa \<Longrightarrow> page_aligned (page pa k)"
  unfolding page_def by (intro page_aligned_add page_aligned_times)

lemma bit_PTE_FLAGS: "bit (PTE_FLAGS x) n \<longleftrightarrow> n < 10 \<and> bit x n"
proof -
  have "PTE_FLAGS x = x AND mask 10"
    by (simp add: PTE_FLAGS_def mask_eq_exp_minus_1)
  then show ?thesis by (auto simp: bit_simps)
qed

lemma flags_only: "PTE_FLAGS f = f \<Longrightarrow> bit f n \<Longrightarrow> n < 10"
proof -
  assume "PTE_FLAGS f = f" "bit f n"
  then have "bit (PTE_FLAGS f) n" by simp
  then show ?thesis by (simp add: bit_PTE_FLAGS)
qed

lemma PTE2PA_entry:
  assumes "page_aligned p" "PTE_FLAGS (scast perm) = scast perm"
  shows "PTE2PA (entry p perm) = p"
proof (rule bit_word_eqI)
  fix n assume n: "n < LENGTH(64)"
  show "bit (PTE2PA (entry p perm)) n = bit p n"
  proof (cases "12 \<le> n")
    case True
    then have "\<not> bit (scast perm :: uint64) (n - 2)" "\<not> bit PTE_V (n - 2)"
      using flags_only [OF assms(2), of "n - 2"] by (auto simp: bit_PTE_V)
    moreover from True have "Suc (Suc (n - 2)) = n" by simp
    ultimately show ?thesis
      using True n by (simp add: bit_PTE2PA entry_def bit_or_iff bit_PA2PTE)
  next
    case False
    with assms(1) have "\<not> bit p n" by (auto simp: page_aligned_bits)
    with False show ?thesis by (simp add: bit_PTE2PA)
  qed
qed

lemma PTE_FLAGS_entry:
  assumes "PTE_FLAGS (scast perm) = scast perm"
  shows "PTE_FLAGS (entry p perm) = scast perm OR PTE_V"
proof (rule bit_word_eqI)
  fix n assume n: "n < LENGTH(64)"
  show "bit (PTE_FLAGS (entry p perm)) n = bit (scast perm OR PTE_V :: uint64) n"
    using flags_only [OF assms, of n]
    by (auto simp: bit_PTE_FLAGS entry_def bit_or_iff bit_PA2PTE bit_PTE_V)
qed

text \<open>
  C3, as amended. Let the page table and the free list be well formed, \<open>va\<close> and \<open>pa\<close> page
  aligned, and \<open>perm\<close> within the ten flag bits of an entry. When \<open>mappages\<close> returns 0, then
  for each page index \<open>k\<close> of the mapped range, which runs from \<open>va\<close> to the page of
  \<open>va + sz - 1\<close>, \<open>walk\<close> without \<open>alloc\<close> returns in the state left a leaf slot that is not
  0 and holds a valid entry, whose physical address is \<open>pa + k * PGSIZE\<close> and whose flag bits
  are \<open>perm\<close> together with the valid bit.
\<close>

theorem mappages_walk_round_trip:
  assumes ok: "pt_ok (physmem s) pt" and fr: "free_ok (physmem s) pt (freelist s)"
    and al: "page_aligned va" "page_aligned pa"
    and pm: "PTE_FLAGS (scast perm) = scast perm"
    and run: "mappages s pt va sz pa perm = Inr (0, s')"
    and k: "unat va + k * 4096 \<le> unat (PGROUNDDOWN (va + sz - 1))"
  shows "\<exists>slot. walk s' pt (page va k) False = Inr (slot, s') \<and> slot \<noteq> 0 \<and>
           load64 (physmem s') slot AND PTE_V \<noteq> 0 \<and>
           PTE2PA (load64 (physmem s') slot) = page pa k \<and>
           PTE_FLAGS (load64 (physmem s') slot) = scast perm OR PTE_V"
proof -
  from run have loop: "mappages_loop s pt va (PGROUNDDOWN (va + sz - 1)) pa perm = Inr (0, s')"
    using al(1) by (simp add: mappages_def PGROUNDDOWN_aligned)
  from mappages_loop_spec [OF loop ok fr] k have
    last: "PGROUNDDOWN (va + sz - 1) < MAXVA"
    and nz: "slot0 (physmem s') pt (page va k) \<noteq> 0"
    and lf: "leaf (physmem s') pt (page va k) = entry (page pa k) perm"
    by (simp_all add: page_def)
  have vl: "valid (leaf (physmem s') pt (page va k))"
    unfolding lf by (rule valid_entry)
  then have h: "has0 (physmem s') pt (page va k)" by (rule valid_leaf_has0)
  then have ld: "load64 (physmem s') (slot0 (physmem s') pt (page va k)) = entry (page pa k) perm"
    using lf by (simp add: leaf_def)
  have "unat (page va k) \<le> unat va + k * 4096"
  proof -
    have "unat (page va k) \<le> unat va + unat (of_nat k * PGSIZE :: uint64)"
      unfolding page_def by (simp add: unat_word_ariths)
    also have "unat (of_nat k * PGSIZE :: uint64) \<le> k * 4096"
      by (simp add: unat_word_ariths PGSIZE_def unat_of_nat)
    finally show ?thesis by simp
  qed
  with k last have lt: "page va k < MAXVA"
    by (simp add: word_less_nat_alt)
  have w: "walk s' pt (page va k) False = Inr (slot0 (physmem s') pt (page va k), s')"
    using lt h by (simp add: walk_False)
  have a: "page_aligned (page pa k)"
    using al(2) by (rule page_aligned_page_any)
  from w nz ld show ?thesis
    using valid_entry [of "page pa k" perm] PTE2PA_entry [OF a pm] PTE_FLAGS_entry [OF pm]
    by (simp add: valid_def)
qed

text \<open>
  The claim as stated, for every \<open>pa\<close>, fails when \<open>pa\<close> is not page aligned: \<open>PA2PTE\<close> drops
  the low 12 bits, so that after mapping page 0 to \<open>0x5001\<close> the leaf that \<open>walk\<close> returns is
  valid and decodes to \<open>0x5000\<close>.
\<close>

lemma map_state_sel: "physmem map_state = zero_mem" "freelist map_state = [0x80002000, 0x80003000]"
  by (simp_all add: map_state_def)

lemma map_walk:
  "walk map_state 0x80001000 0 True =
     Inr (0x80003000, \<lparr>physmem = map_tables, freelist = []\<rparr>)"
  by (simp add: walk_def MAXVA_def walk_level_two PX_def map_state_sel load_simps kalloc_def
      Let_def PGSIZE_def PTE_V_def PA2PTE_def PTE2PA_def memset_idem)
     (simp add: map_state_def map_tables_def PGSIZE_def PTE_V_def PA2PTE_def)

lemma map_run:
  "mappages map_state 0x80001000 0 4096 pa 18 = Inr (0, map_done pa)"
  unfolding mappages_def
  by (subst mappages_loop.simps)
     (simp add: PGROUNDDOWN_def PGSIZE_def map_walk map_tables_def load_simps map_done_def
        del: mappages_loop.simps)

lemma map_done_walk:
  "walk (map_done pa) 0x80001000 0 False = Inr (0x80003000, map_done pa)"
  by (simp add: walk_def MAXVA_def walk_level_two PX_def map_done_def map_tables_def load_simps
      PGSIZE_def PTE_V_def PA2PTE_def PTE2PA_def)

theorem mappages_unaligned_counterexample:
  "mappages map_state 0x80001000 0 4096 0x5001 18 = Inr (0, map_done 0x5001) \<and>
   walk (map_done 0x5001) 0x80001000 0 False = Inr (0x80003000, map_done 0x5001) \<and>
   load64 (physmem (map_done 0x5001)) 0x80003000 AND PTE_V \<noteq> 0 \<and>
   PTE2PA (load64 (physmem (map_done 0x5001)) 0x80003000) = 0x5000"
  by (simp add: map_run map_done_walk)
     (simp add: map_done_def load_simps PA2PTE_def PTE2PA_def PTE_V_def)

lemma map_done_sel: "physmem (map_done pa) = store64 map_tables 0x80003000 (PA2PTE pa OR 18 OR PTE_V)"
  "freelist (map_done pa) = []"
  by (simp_all add: map_done_def)

lemma map_walk2:
  "walk (map_done pa) 0x80001000 4096 True = Inr (0x80003008, map_done pa)"
  by (simp add: walk_def MAXVA_def walk_level_two PX_def map_done_sel map_tables_def load_simps
      PGSIZE_def PTE_V_def PA2PTE_def PTE2PA_def)

lemma mappages_loop_unfold:
  assumes "walk s pt a True = Inr (slot, s1)" "slot \<noteq> 0" "load64 (physmem s1) slot AND PTE_V = 0"
  shows "mappages_loop s pt a last_a pa perm =
     (if a = last_a then Inr (0, s1\<lparr>physmem := store64 (physmem s1) slot (entry pa perm)\<rparr>)
      else mappages_loop (s1\<lparr>physmem := store64 (physmem s1) slot (entry pa perm)\<rparr>)
             pt (a + PGSIZE) last_a (pa + PGSIZE) perm)"
  by (subst mappages_loop.simps) (simp add: assms entry_def Let_def del: mappages_loop.simps)

lemma map_run2:
  "mappages map_state 0x80001000 0 8192 0x5000 18 = Inr (0, map_two)"
proof -
  have e: "\<lparr>physmem = map_tables, freelist = []\<rparr>
             \<lparr>physmem := store64 map_tables 0x80003000 (entry 0x5000 18)\<rparr> = map_done 0x5000"
    by (simp add: map_done_def entry_def)
  have "mappages_loop map_state 0x80001000 0 4096 0x5000 18 =
        mappages_loop (map_done 0x5000) 0x80001000 4096 4096 0x6000 18"
    using mappages_loop_unfold [OF map_walk, of 4096 "0x5000" 18] e
    by (simp add: map_tables_def load_simps PGSIZE_def del: mappages_loop.simps)
  also have "\<dots> = Inr (0, map_two)"
    using mappages_loop_unfold [OF map_walk2, of "0x5000" 4096 "0x6000" 18]
    by (simp add: map_done_sel map_tables_def load_simps PGSIZE_def del: mappages_loop.simps)
       (simp add: map_two_def map_done_def entry_def map_tables_def PGSIZE_def
          del: mappages_loop.simps)
  finally show ?thesis
    by (simp add: mappages_def PGROUNDDOWN_def PGSIZE_def del: mappages_loop.simps)
qed

lemma map_two_walk:
  "walk map_two 0x80001000 4096 False = Inr (0x80003008, map_two)"
  by (simp add: walk_def MAXVA_def walk_level_two PX_def map_two_def map_tables_def load_simps
      PGSIZE_def PTE_V_def PA2PTE_def PTE2PA_def)

lemma zero_has1: "\<not> has1 zero_mem pt va"
  by (simp add: has1_def pte2_def load_zero_mem)

lemma map_state_ok:
  "pt_ok (physmem map_state) 0x80001000"
  "free_ok (physmem map_state) 0x80001000 (freelist map_state)"
  by (simp_all add: map_state_sel pt_ok_def free_ok_def tables1_def tables0_def has0_def zero_has1
      page_aligned_def PGSIZE_def)

theorem mappages_walk_round_trip_witness:
  "pt_ok (physmem map_state) 0x80001000 \<and>
   free_ok (physmem map_state) 0x80001000 (freelist map_state) \<and>
   page_aligned (0 :: uint64) \<and> page_aligned (0x5000 :: uint64) \<and>
   PTE_FLAGS (scast (18 :: int32)) = scast (18 :: int32) \<and>
   mappages map_state 0x80001000 0 8192 0x5000 18 = Inr (0, map_two) \<and>
   unat (0 :: uint64) + 1 * 4096 \<le> unat (PGROUNDDOWN (0 + 8192 - 1)) \<and>
   walk map_two 0x80001000 (page 0 1) False = Inr (0x80003008, map_two) \<and>
   load64 (physmem map_two) 0x80003008 AND PTE_V \<noteq> 0 \<and>
   PTE2PA (load64 (physmem map_two) 0x80003008) = 0x6000 \<and>
   PTE_FLAGS (load64 (physmem map_two) 0x80003008) = 19"
proof -
  have al: "page_aligned (0 :: uint64)" "page_aligned (0x5000 :: uint64)"
    by (simp_all add: page_aligned_def PGSIZE_def)
  have pm: "PTE_FLAGS (scast (18 :: int32)) = scast (18 :: int32)"
    by (simp add: PTE_FLAGS_def)
  have k: "unat (0 :: uint64) + 1 * 4096 \<le> unat (PGROUNDDOWN (0 + 8192 - 1))"
    by (simp add: PGROUNDDOWN_def PGSIZE_def)
  have p: "page 0 1 = 4096" "page 0x5000 1 = 0x6000"
    by (simp_all add: page_def PGSIZE_def)
  from mappages_walk_round_trip [OF map_state_ok al pm map_run2 k]
  obtain slot where w: "walk map_two 0x80001000 (page 0 1) False = Inr (slot, map_two)"
    and r: "load64 (physmem map_two) slot AND PTE_V \<noteq> 0"
      "PTE2PA (load64 (physmem map_two) slot) = page 0x5000 1"
      "PTE_FLAGS (load64 (physmem map_two) slot) = scast (18 :: int32) OR PTE_V"
    by blast
  from w [unfolded p] have "slot = 0x80003008" by (simp add: map_two_walk)
  with w [unfolded p] r [unfolded p] show ?thesis
    unfolding p using map_state_ok al pm map_run2 k by (simp add: PTE_V_def)
qed

end
